theory Spec2Isabelle
  imports Main
begin

section \<open>The buffer manager of buf.C\<close>

subsection \<open>Data model\<close>

text \<open>
  Status codes. buf.C names the first eight; the enumeration itself is declared in a header
  that is not part of the sources, so every other code a collaborator may return is
  \<open>OTHER n\<close>.
\<close>

datatype Status =
    OK | UNIXERR | BUFFEREXCEEDED | HASHTBLERROR | HASHNOTFOUND
  | PAGENOTPINNED | PAGEPINNED | BADBUFFER | OTHER nat

text \<open>
  A \<open>File*\<close> is the identity of a file object, \<open>NULL\<close> being 0. A page is an
  opaque content value (0 is the zero-filled page).
\<close>

type_synonym File = nat
type_synonym Page = nat

definition NULL :: File where
  "NULL = 0"

text \<open>
  The frame descriptor, with the fields buf.C reads and writes. \<open>frameNo\<close> and the other
  frame numbers are array indices and are modelled as naturals; \<open>pageNo\<close> and
  \<open>pinCnt\<close> are C \<open>int\<close>s, modelled as integers (no operation of buf.C brings them near
  the bounds of the machine type).
\<close>

record BufDesc =
  filePtr :: File
  pageNo :: int
  frameNo :: nat
  pinCnt :: int
  dirty :: bool
  valid :: bool
  refbit :: bool

text \<open>
  Every call of a collaborator that can have an effect is logged: the four operations of
  the File abstraction (the I/O) and the two updates of the Page Index.
\<close>

datatype event =
    FileRead File int
  | FileWrite File int Page
  | FileAllocate File
  | FileDispose File int
  | HtInsert File int nat
  | HtRemove File int

text \<open>
  The Page Index holds entries (file, page number) -> frame; it is kept as the list of its
  entries, so that duplicates can be told.
\<close>

type_synonym hashTbl = "((File \<times> int) \<times> nat) list"

text \<open>
  The buffer manager: \<open>bufTable\<close> and \<open>bufPool\<close> are the two arrays of \<open>numBufs\<close>
  elements, so \<open>numBufs\<close> is the length of \<open>bufTable\<close>. \<open>trace\<close> is the log of the
  collaborator calls made so far.
\<close>

record BufMgr =
  bufTable :: "BufDesc list"
  bufPool :: "Page list"
  hashTable :: hashTbl
  clockHand :: nat
  trace :: "event list"

definition numBufs :: "BufMgr \<Rightarrow> nat" where
  "numBufs s = length (bufTable s)"

text \<open>
  The collaborators are parameters of the model. The outcome of a File operation is a
  function of the calls made so far and of its arguments; the outcome of an index update
  is a function of the index and of its arguments.
  \<^item> \<open>readResult tr fl pno buf\<close>: status and new contents of the destination buffer;
  \<^item> \<open>writeResult tr fl pno buf\<close>: status;
  \<^item> \<open>allocateResult tr fl pno\<close>: status and the value left in the output parameter;
  \<^item> \<open>disposeResult tr fl pno\<close>: status;
  \<^item> \<open>insertResult h fl pno fr\<close>, \<open>removeResult h fl pno\<close>: status.
\<close>

record Env =
  readResult :: "event list \<Rightarrow> File \<Rightarrow> int \<Rightarrow> Page \<Rightarrow> Status \<times> Page"
  writeResult :: "event list \<Rightarrow> File \<Rightarrow> int \<Rightarrow> Page \<Rightarrow> Status"
  allocateResult :: "event list \<Rightarrow> File \<Rightarrow> int \<Rightarrow> Status \<times> int"
  disposeResult :: "event list \<Rightarrow> File \<Rightarrow> int \<Rightarrow> Status"
  insertResult :: "hashTbl \<Rightarrow> File \<Rightarrow> int \<Rightarrow> nat \<Rightarrow> Status"
  removeResult :: "hashTbl \<Rightarrow> File \<Rightarrow> int \<Rightarrow> Status"

subsection \<open>Collaborators\<close>

text \<open>
  Modelled from the spec: class BufHashTbl (declared in buf.h, which is not among the
  sources) is the Page Index of the spec. \<open>lookup(file, page_number) -> Result<frame_id>\<close>
  "fails with not found when absent"; the output parameter keeps its value then.
\<close>

definition BufHashTbl_lookup :: "hashTbl \<Rightarrow> File \<Rightarrow> int \<Rightarrow> nat \<Rightarrow> Status \<times> nat" where
  "BufHashTbl_lookup h fl pno frameno =
     (case map_of h (fl, pno) of
        None \<Rightarrow> (HASHNOTFOUND, frameno)
      | Some fr \<Rightarrow> (OK, fr))"

text \<open>
  Modelled from the spec: \<open>insert(file, page_number, frame_id) -> Result\<close> of BufHashTbl.
  The spec does not say when an insertion fails: the status is the collaborator's
  (\<open>insertResult\<close>); a successful insertion adds the entry, a failed one adds nothing.
\<close>

definition BufHashTbl_insert :: "Env \<Rightarrow> File \<Rightarrow> int \<Rightarrow> nat \<Rightarrow> BufMgr \<Rightarrow> Status \<times> BufMgr" where
  "BufHashTbl_insert env fl pno fr s =
     (let rc = insertResult env (hashTable s) fl pno fr;
          s1 = s\<lparr>trace := trace s @ [HtInsert fl pno fr]\<rparr>
      in if rc = OK then (OK, s1\<lparr>hashTable := ((fl, pno), fr) # hashTable s1\<rparr>)
         else (rc, s1))"

text \<open>
  Modelled from the spec: the entry of a page taken out of the entries of the index (the
  first one, should the page occur twice).
\<close>

fun removeEntry :: "File \<times> int \<Rightarrow> hashTbl \<Rightarrow> hashTbl" where
  "removeEntry k [] = []"
| "removeEntry k (e # es) = (if fst e = k then es else e # removeEntry k es)"

text \<open>
  Modelled from the spec: \<open>remove(file, page_number) -> Result\<close> of BufHashTbl. The status
  is the collaborator's (\<open>removeResult\<close>); a successful removal deletes the entry of the
  page, a failed one deletes nothing.
\<close>

definition BufHashTbl_remove :: "Env \<Rightarrow> File \<Rightarrow> int \<Rightarrow> BufMgr \<Rightarrow> Status \<times> BufMgr" where
  "BufHashTbl_remove env fl pno s =
     (let rc = removeResult env (hashTable s) fl pno;
          s1 = s\<lparr>trace := trace s @ [HtRemove fl pno]\<rparr>
      in if rc = OK then (OK, s1\<lparr>hashTable := removeEntry (fl, pno) (hashTable s1)\<rparr>)
         else (rc, s1))"

text \<open>
  Modelled from the spec: the File abstraction (class File is not among the sources),
  \<open>read_page(page_number, dest_buffer) -> Result\<close>. The destination is the pool frame
  \<open>fr\<close>.
\<close>

definition File_readPage :: "Env \<Rightarrow> File \<Rightarrow> int \<Rightarrow> nat \<Rightarrow> BufMgr \<Rightarrow> Status \<times> BufMgr" where
  "File_readPage env fl pno fr s =
     (let (rc, pg) = readResult env (trace s) fl pno (bufPool s ! fr)
      in (rc, s\<lparr>bufPool := (bufPool s)[fr := pg], trace := trace s @ [FileRead fl pno]\<rparr>))"

text \<open>
  Modelled from the spec: \<open>write_page(page_number, src_buffer) -> Result\<close> of the File
  abstraction. The source is the pool frame \<open>fr\<close>.
\<close>

definition File_writePage :: "Env \<Rightarrow> File \<Rightarrow> int \<Rightarrow> nat \<Rightarrow> BufMgr \<Rightarrow> Status \<times> BufMgr" where
  "File_writePage env fl pno fr s =
     (writeResult env (trace s) fl pno (bufPool s ! fr),
      s\<lparr>trace := trace s @ [FileWrite fl pno (bufPool s ! fr)]\<rparr>)"

text \<open>
  Modelled from the spec: \<open>allocate_page() -> Result<page_number>\<close> of the File
  abstraction; \<open>pno\<close> is the value the output parameter has before the call.
\<close>

definition File_allocatePage :: "Env \<Rightarrow> File \<Rightarrow> int \<Rightarrow> BufMgr \<Rightarrow> Status \<times> int \<times> BufMgr" where
  "File_allocatePage env fl pno s =
     (let (rc, pno') = allocateResult env (trace s) fl pno
      in (rc, pno', s\<lparr>trace := trace s @ [FileAllocate fl]\<rparr>))"

text \<open>
  Modelled from the spec: \<open>dispose_page(page_number) -> Result\<close> of the File abstraction.
\<close>

definition File_disposePage :: "Env \<Rightarrow> File \<Rightarrow> int \<Rightarrow> BufMgr \<Rightarrow> Status \<times> BufMgr" where
  "File_disposePage env fl pno s =
     (disposeResult env (trace s) fl pno,
      s\<lparr>trace := trace s @ [FileDispose fl pno]\<rparr>)"

text \<open>
  Modelled from the spec: BufDesc::Set (buf.h is not among the sources) initialises the
  descriptor of a loaded page: "owning_file, page_number set, valid = true, dirty = false,
  ref_bit = true, pin_count = 1".
\<close>

definition BufDesc_Set :: "File \<Rightarrow> int \<Rightarrow> BufDesc \<Rightarrow> BufDesc" where
  "BufDesc_Set fl pno d =
     d\<lparr>filePtr := fl, pageNo := pno, pinCnt := 1, dirty := False, valid := True, refbit := True\<rparr>"

text \<open>
  Modelled from the spec: BufDesc::Clear (buf.h is not among the sources) resets the
  descriptor to invalid: no owning file, the page-number sentinel, pin_count 0, not dirty,
  ref_bit clear. The frame number is immutable.
\<close>

definition BufDesc_Clear :: "BufDesc \<Rightarrow> BufDesc" where
  "BufDesc_Clear d =
     d\<lparr>filePtr := NULL, pageNo := - 1, pinCnt := 0, dirty := False, valid := False, refbit := False\<rparr>"

subsection \<open>Operations of BufMgr\<close>

text \<open>\<open>bufTable[i]\<close> updated in place by \<open>g\<close>.\<close>

definition updDesc :: "nat \<Rightarrow> (BufDesc \<Rightarrow> BufDesc) \<Rightarrow> BufMgr \<Rightarrow> BufMgr" where
  "updDesc i g s = s\<lparr>bufTable := (bufTable s)[i := g (bufTable s ! i)]\<rparr>"

text \<open>
  The constructor: \<open>bufs\<close> zeroed descriptors with their frame numbers, a zeroed pool, an
  empty index, the hand on the last frame (with no frame at all the hand is never read).
\<close>

definition BufMgr_new :: "nat \<Rightarrow> BufMgr" where
  "BufMgr_new bufs =
     \<lparr>bufTable = map (\<lambda>i. \<lparr>filePtr = NULL, pageNo = 0, frameNo = i, pinCnt = 0,
                           dirty = False, valid = False, refbit = False\<rparr>) [0..<bufs],
      bufPool = replicate bufs 0,
      hashTable = [],
      clockHand = bufs - 1,
      trace = []\<rparr>"

text \<open>
  The loop of allocBuf (lines 84-105), from the value of \<open>numPins\<close>; it returns the final
  \<open>numPins\<close> with the state. After the loop \<open>tmpbuf\<close> is \<open>bufTable[clockHand]\<close>.
\<close>

function allocBuf_loop :: "nat \<Rightarrow> BufMgr \<Rightarrow> nat \<times> BufMgr" where
  "allocBuf_loop numPins s =
     (if numPins < numBufs s then
        (let s1 = s\<lparr>clockHand := (clockHand s + 1) mod numBufs s\<rparr>;
             tmpbuf = bufTable s1 ! clockHand s1
         in if \<not> valid tmpbuf then (numPins, s1)
            else if \<not> refbit tmpbuf then
              (if pinCnt tmpbuf = 0 then (numPins, s1)
               else allocBuf_loop (numPins + 1) s1)
            else allocBuf_loop numPins (updDesc (clockHand s1) (\<lambda>d. d\<lparr>refbit := False\<rparr>) s1))
      else (numPins, s))"
  by pat_completeness auto
termination
proof (relation "measure (\<lambda>(n, s). (numBufs s - n)
                   + sum_list (map (\<lambda>d. if refbit d then 1 else 0) (bufTable s)))", goal_cases)
  case 1
  show ?case by simp
next
  case (2 numPins s s1 tmpbuf)
  then show ?case by (simp add: numBufs_def)
next
  case (3 numPins s s1 tmpbuf)
  let ?xs = "bufTable s"
  let ?h = "(clockHand s + 1) mod length ?xs"
  let ?w = "\<lambda>d. if refbit d then 1 else (0::nat)"
  from 3 have n: "0 < length ?xs" and r: "refbit (?xs ! ?h)"
    by (auto simp: numBufs_def)
  from n have h: "?h < length ?xs" by simp
  have "sum_list ((map ?w ?xs)[?h := 0]) = sum_list (map ?w ?xs) + 0 - (map ?w ?xs) ! ?h"
    using h by (simp add: sum_list_update)
  moreover have one: "(map ?w ?xs) ! ?h = 1" using h r by simp
  moreover have "(map ?w ?xs) ! ?h \<in> set (map ?w ?xs)"
    using h by (intro nth_mem) simp
  then have "(map ?w ?xs) ! ?h \<le> sum_list (map ?w ?xs)"
    by (rule member_le_sum_list) simp
  then have "1 \<le> sum_list (map ?w ?xs)"
    using one by simp
  ultimately have "sum_list ((map ?w ?xs)[?h := 0]) < sum_list (map ?w ?xs)"
    by simp
  with 3 show ?case
    by (simp add: numBufs_def updDesc_def map_update)
qed

text \<open>
  allocBuf. \<open>frame\<close> is the value of the output parameter before the call; it comes back
  unchanged on every error return.
\<close>

definition allocBuf :: "Env \<Rightarrow> nat \<Rightarrow> BufMgr \<Rightarrow> Status \<times> nat \<times> BufMgr" where
  "allocBuf env frame s =
     (let (numPins, s1) = allocBuf_loop 0 s in
      if numPins \<ge> numBufs s1 then (BUFFEREXCEEDED, frame, s1)
      else
        (let tmpbuf = bufTable s1 ! clockHand s1 in
         if valid tmpbuf then
           (let (rc, s2) = BufHashTbl_remove env (filePtr tmpbuf) (pageNo tmpbuf) s1 in
            if rc \<noteq> OK then (rc, frame, s2)
            else if dirty tmpbuf then
              (let (rc', s3) = File_writePage env (filePtr tmpbuf) (pageNo tmpbuf) (clockHand s2) s2 in
               if rc' \<noteq> OK then (UNIXERR, frame, s3)
               else (OK, frameNo tmpbuf, s3))
            else (OK, frameNo tmpbuf, s2))
         else (OK, frameNo tmpbuf, s1)))"

text \<open>
  readPage. The result is the status, the frame whose pool slot \<open>page\<close> is made to point
  to (\<open>None\<close>: \<open>page\<close> is not assigned) and the state. The locals \<open>frameno\<close> and
  \<open>repframe\<close> are not initialised in the source and are read only after a call has
  assigned them; they start as 0 here.
\<close>

definition readPage :: "Env \<Rightarrow> File \<Rightarrow> int \<Rightarrow> BufMgr \<Rightarrow> Status \<times> nat option \<times> BufMgr" where
  "readPage env fl pno s =
     (let (rc, frameno) = BufHashTbl_lookup (hashTable s) fl pno 0 in
      if rc \<noteq> OK \<or> rc \<noteq> HASHNOTFOUND then (rc, None, s)
      else if rc = HASHNOTFOUND then
        (let (rc1, repframe, s1) = allocBuf env 0 s in
         if rc1 \<noteq> OK then (rc1, None, s1)
         else
           (let (rc2, s2) = File_readPage env fl pno repframe s1 in
            if rc2 \<noteq> OK then (UNIXERR, None, s2)
            else
              (let (rc3, s3) = BufHashTbl_insert env fl pno repframe s2 in
               if rc3 \<noteq> OK then (HASHTBLERROR, None, s3)
               else (OK, Some repframe, updDesc repframe (BufDesc_Set fl pno) s3))))
      else
        (OK, Some frameno,
         updDesc frameno (\<lambda>d. d\<lparr>pinCnt := pinCnt d + 1\<rparr>)
           (updDesc frameno (\<lambda>d. d\<lparr>refbit := True\<rparr>) s)))"

text \<open>unPinPage. \<open>isDirty\<close> is the parameter \<open>dirty\<close> of the source.\<close>

definition unPinPage :: "File \<Rightarrow> int \<Rightarrow> bool \<Rightarrow> BufMgr \<Rightarrow> Status \<times> BufMgr" where
  "unPinPage fl pno isDirty s =
     (let (rc, frameno) = BufHashTbl_lookup (hashTable s) fl pno 0 in
      if rc \<noteq> OK then (HASHNOTFOUND, s)
      else if pinCnt (bufTable s ! frameno) = 0 then (PAGENOTPINNED, s)
      else
        (let s1 = updDesc frameno (\<lambda>d. d\<lparr>pinCnt := pinCnt d - 1\<rparr>) s;
             s2 = (if isDirty then updDesc frameno (\<lambda>d. d\<lparr>dirty := isDirty\<rparr>) s1 else s1)
         in (OK, s2)))"

text \<open>
  allocPage. \<open>pno\<close> is the value of the output parameter \<open>pageNo\<close> before the call; the
  status of \<open>file->allocatePage\<close> is dropped, as in the source. The result is the status,
  the final \<open>pageNo\<close>, the frame \<open>page\<close> points to (if assigned) and the state.
\<close>

definition allocPage :: "Env \<Rightarrow> File \<Rightarrow> int \<Rightarrow> BufMgr \<Rightarrow> Status \<times> int \<times> nat option \<times> BufMgr" where
  "allocPage env fl pno s =
     (let (rc0, pno', s0) = File_allocatePage env fl pno s;
          (rc, frameno, s1) = allocBuf env 0 s0 in
      if rc \<noteq> OK then (rc, pno', None, s1)
      else
        (let (rc2, s2) = BufHashTbl_insert env fl pno' frameno s1 in
         if rc2 \<noteq> OK then (HASHTBLERROR, pno', None, s2)
         else (OK, pno', Some frameno, updDesc frameno (BufDesc_Set fl pno') s2)))"

text \<open>disposePage: the status of the index removal is overwritten by that of the File.\<close>

definition disposePage :: "Env \<Rightarrow> File \<Rightarrow> int \<Rightarrow> BufMgr \<Rightarrow> Status \<times> BufMgr" where
  "disposePage env fl pno s =
     (let (status, frameNo') = BufHashTbl_lookup (hashTable s) fl pno 0;
          s1 = (if status = OK then updDesc frameNo' BufDesc_Clear s else s);
          (status', s2) = BufHashTbl_remove env fl pno s1
      in File_disposePage env fl pno s2)"

text \<open>
  flushFile, lines 306-310: the page of frame \<open>i\<close> leaves the index (the status of the
  removal is dropped) and the frame is marked invalid.
\<close>

definition flushFile_invalidate :: "Env \<Rightarrow> File \<Rightarrow> nat \<Rightarrow> BufMgr \<Rightarrow> BufMgr" where
  "flushFile_invalidate env fl i s =
     (let (rc, s1) = BufHashTbl_remove env fl (pageNo (bufTable s ! i)) s
      in updDesc i (\<lambda>d. d\<lparr>filePtr := NULL, pageNo := - 1, valid := False\<rparr>) s1)"

text \<open>The loop of flushFile, from frame \<open>i\<close>.\<close>

function flushFile_loop :: "Env \<Rightarrow> File \<Rightarrow> nat \<Rightarrow> BufMgr \<Rightarrow> Status \<times> BufMgr" where
  "flushFile_loop env fl i s =
     (if i < numBufs s then
        (let tmpbuf = bufTable s ! i in
         if valid tmpbuf = True \<and> filePtr tmpbuf = fl then
           (if pinCnt tmpbuf > 0 then (PAGEPINNED, s)
            else if dirty tmpbuf = True then
              (let (status, s1) = File_writePage env (filePtr tmpbuf) (pageNo tmpbuf) i s in
               if status \<noteq> OK then (status, s1)
               else flushFile_loop env fl (i + 1)
                      (flushFile_invalidate env fl i (updDesc i (\<lambda>d. d\<lparr>dirty := False\<rparr>) s1)))
            else flushFile_loop env fl (i + 1) (flushFile_invalidate env fl i s))
         else if valid tmpbuf = False \<and> filePtr tmpbuf = fl then (BADBUFFER, s)
         else flushFile_loop env fl (i + 1) s)
      else (OK, s))"
  by pat_completeness auto
termination
  by (relation "measure (\<lambda>(env, fl, i, s). numBufs s - i)")
     (auto simp: numBufs_def flushFile_invalidate_def updDesc_def BufHashTbl_remove_def
        File_writePage_def Let_def split: prod.splits if_splits)

definition flushFile :: "Env \<Rightarrow> File \<Rightarrow> BufMgr \<Rightarrow> Status \<times> BufMgr" where
  "flushFile env fl s = flushFile_loop env fl 0 s"

subsection \<open>Sequences of calls\<close>

text \<open>
  A call of unPinPage, allocPage, disposePage or flushFile with its arguments (for
  allocPage the file and the value of the output parameter \<open>pageNo\<close> before the call),
  its status and the state it leaves.
\<close>

datatype call =
    UnPinPage File int bool
  | AllocPage File int
  | DisposePage File int
  | FlushFile File

fun perform :: "Env \<Rightarrow> call \<Rightarrow> BufMgr \<Rightarrow> Status \<times> BufMgr" where
  "perform env (UnPinPage fl pno isDirty) s = unPinPage fl pno isDirty s"
| "perform env (AllocPage fl pno) s =
     (fst (allocPage env fl pno s), snd (snd (snd (allocPage env fl pno s))))"
| "perform env (DisposePage fl pno) s = disposePage env fl pno s"
| "perform env (FlushFile fl) s = flushFile env fl s"

text \<open>The state after a sequence of calls made one after the other, and their statuses.\<close>

fun run :: "Env \<Rightarrow> call list \<Rightarrow> BufMgr \<Rightarrow> BufMgr" where
  "run env [] s = s"
| "run env (c # cs) s = run env cs (snd (perform env c s))"

fun statuses :: "Env \<Rightarrow> call list \<Rightarrow> BufMgr \<Rightarrow> Status list" where
  "statuses env [] s = []"
| "statuses env (c # cs) s = fst (perform env c s) # statuses env cs (snd (perform env c s))"

text \<open>
  A call of allocPage has failed when its status is neither OK nor BUFFEREXCEEDED (then a
  frame had been chosen); \<open>allocsComplete\<close>: no call of allocPage in the sequence fails.
\<close>

fun allocFailed :: "call \<Rightarrow> Status \<Rightarrow> bool" where
  "allocFailed (AllocPage fl pno) st = (st \<noteq> OK \<and> st \<noteq> BUFFEREXCEEDED)"
| "allocFailed c st = False"

fun allocsComplete :: "Env \<Rightarrow> call list \<Rightarrow> BufMgr \<Rightarrow> bool" where
  "allocsComplete env [] s = True"
| "allocsComplete env (c # cs) s =
     (\<not> allocFailed c (fst (perform env c s)) \<and> allocsComplete env cs (snd (perform env c s)))"

subsection \<open>Invariants\<close>

text \<open>Every descriptor carries its own index (set once by the constructor).\<close>

definition framesNumbered :: "BufMgr \<Rightarrow> bool" where
  "framesNumbered s \<longleftrightarrow> (\<forall>i \<in> set [0..<numBufs s]. frameNo (bufTable s ! i) = i)"

text \<open>Pin counts are not negative, and an invalid frame has pin count 0.\<close>

definition pinsConsistent :: "BufMgr \<Rightarrow> bool" where
  "pinsConsistent s \<longleftrightarrow>
     (\<forall>i \<in> set [0..<numBufs s].
        0 \<le> pinCnt (bufTable s ! i) \<and>
        (\<not> valid (bufTable s ! i) \<longrightarrow> pinCnt (bufTable s ! i) = 0))"

text \<open>
  The valid frames and the entries of the Page Index are in bijection: no page and no
  frame occurs twice in the index, every entry names a valid frame that holds the page of
  the entry, and every valid frame has the entry of its page.
\<close>

definition indexMatches :: "BufDesc list \<Rightarrow> hashTbl \<Rightarrow> bool" where
  "indexMatches bt h \<longleftrightarrow>
     distinct (map fst h) \<and>
     distinct (map snd h) \<and>
     (\<forall>e \<in> set h.
        snd e < length bt \<and> valid (bt ! snd e) \<and>
        fst e = (filePtr (bt ! snd e), pageNo (bt ! snd e))) \<and>
     (\<forall>i \<in> set [0..<length bt].
        valid (bt ! i) \<longrightarrow> ((filePtr (bt ! i), pageNo (bt ! i)), i) \<in> set h)"

definition indexBijection :: "BufMgr \<Rightarrow> bool" where
  "indexBijection s \<longleftrightarrow> indexMatches (bufTable s) (hashTable s)"

text \<open>
  The same but for frame \<open>f\<close>, which no entry names: the state of the index between the
  eviction of the page of \<open>f\<close> and the insertion of its new page.
\<close>

definition indexHole :: "nat \<Rightarrow> BufDesc list \<Rightarrow> hashTbl \<Rightarrow> bool" where
  "indexHole f bt h \<longleftrightarrow>
     distinct (map fst h) \<and>
     distinct (map snd h) \<and>
     (\<forall>e \<in> set h.
        snd e \<noteq> f \<and> snd e < length bt \<and> valid (bt ! snd e) \<and>
        fst e = (filePtr (bt ! snd e), pageNo (bt ! snd e))) \<and>
     (\<forall>i \<in> set [0..<length bt].
        i \<noteq> f \<and> valid (bt ! i) \<longrightarrow> ((filePtr (bt ! i), pageNo (bt ! i)), i) \<in> set h)"

text \<open>
  What the bijection needs from the Page Index: it refuses to insert a page it already
  holds, and it removes every page it holds.
\<close>

definition indexReliable :: "Env \<Rightarrow> bool" where
  "indexReliable env \<longleftrightarrow>
     (\<forall>h fl pno fr. insertResult env h fl pno fr = OK \<longrightarrow> map_of h (fl, pno) = None) \<and>
     (\<forall>h fl pno. map_of h (fl, pno) \<noteq> None \<longrightarrow> removeResult env h fl pno = OK)"

subsection \<open>The effect of a flush, frame by frame\<close>

text \<open>
  The descriptor of a frame whose page has been flushed (lines 299-310): not dirty, no
  file, the page-number sentinel, invalid. Pin count, reference bit and frame number are
  kept.
\<close>

definition flushedDesc :: "BufDesc \<Rightarrow> BufDesc" where
  "flushedDesc d = d\<lparr>filePtr := NULL, pageNo := - 1, dirty := False, valid := False\<rparr>"

text \<open>
  The collaborator calls that flush frame \<open>j\<close> of state \<open>s\<close>, when it names file \<open>fl\<close>:
  the write of its contents if it is dirty, then the removal of its page from the index.
  \<open>flushLog fl s m\<close> is the calls for the frames below \<open>m\<close>, in the order of the frames.
\<close>

definition flushCalls :: "File \<Rightarrow> BufMgr \<Rightarrow> nat \<Rightarrow> event list" where
  "flushCalls fl s j =
     (if filePtr (bufTable s ! j) = fl then
        (if dirty (bufTable s ! j)
         then [FileWrite fl (pageNo (bufTable s ! j)) (bufPool s ! j)] else [])
        @ [HtRemove fl (pageNo (bufTable s ! j))]
      else [])"

definition flushLog :: "File \<Rightarrow> BufMgr \<Rightarrow> nat \<Rightarrow> event list" where
  "flushLog fl s m = concat (map (flushCalls fl s) [0..<m])"

text \<open>
  The status the File gives to the write of the page of frame \<open>j\<close>, made once the frames
  below \<open>j\<close> have been flushed.
\<close>

definition writeBack :: "Env \<Rightarrow> File \<Rightarrow> BufMgr \<Rightarrow> nat \<Rightarrow> Status" where
  "writeBack env fl s j =
     writeResult env (trace s @ flushLog fl s j) fl (pageNo (bufTable s ! j)) (bufPool s ! j)"

text \<open>
  Frame \<open>j\<close> can be flushed: it is valid and unpinned, and if it is dirty its write
  succeeds.
\<close>

definition flushable :: "Env \<Rightarrow> File \<Rightarrow> BufMgr \<Rightarrow> nat \<Rightarrow> bool" where
  "flushable env fl s j \<longleftrightarrow>
     valid (bufTable s ! j) \<and> \<not> pinCnt (bufTable s ! j) > 0 \<and>
     (dirty (bufTable s ! j) \<longrightarrow> writeBack env fl s j = OK)"

text \<open>
  The index once the pages of file \<open>fl\<close> in the frames below \<open>m\<close> have been removed from
  it, one after the other (a removal that the index refuses removes nothing), and the
  state once these frames have been flushed.
\<close>

definition flushIndex :: "Env \<Rightarrow> File \<Rightarrow> BufMgr \<Rightarrow> nat \<Rightarrow> hashTbl" where
  "flushIndex env fl s m =
     foldl (\<lambda>h j. if filePtr (bufTable s ! j) = fl \<and>
                      removeResult env h fl (pageNo (bufTable s ! j)) = OK
                   then removeEntry (fl, pageNo (bufTable s ! j)) h else h)
       (hashTable s) [0..<m]"

definition flushPrefix :: "Env \<Rightarrow> File \<Rightarrow> BufMgr \<Rightarrow> nat \<Rightarrow> BufMgr" where
  "flushPrefix env fl s m =
     s\<lparr>bufTable := map (\<lambda>j. if j < m \<and> filePtr (bufTable s ! j) = fl
                             then flushedDesc (bufTable s ! j) else bufTable s ! j)
                      [0..<length (bufTable s)],
       hashTable := flushIndex env fl s m,
       trace := trace s @ flushLog fl s m\<rparr>"

subsection \<open>Example collaborators and pools\<close>

text \<open>
  A collaborator that never fails: pages are numbered 1, 2, ... per file, the index
  refuses duplicates and the removal of an absent page.
\<close>

definition env_ok :: Env where
  "env_ok =
     \<lparr>readResult = (\<lambda>tr fl pno buf. (OK, buf)),
      writeResult = (\<lambda>tr fl pno buf. OK),
      allocateResult =
        (\<lambda>tr fl pno. (OK, 1 + int (length (filter (\<lambda>e. e = FileAllocate fl) tr)))),
      disposeResult = (\<lambda>tr fl pno. OK),
      insertResult = (\<lambda>h fl pno fr. if map_of h (fl, pno) = None then OK else HASHTBLERROR),
      removeResult = (\<lambda>h fl pno. if map_of h (fl, pno) = None then HASHTBLERROR else OK)\<rparr>"

text \<open>The same, with a File whose writes fail.\<close>

definition env_write_fails :: Env where
  "env_write_fails = env_ok\<lparr>writeResult := (\<lambda>tr fl pno buf. UNIXERR)\<rparr>"

text \<open>The same, with a File whose page allocation fails and leaves the output untouched.\<close>

definition env_allocate_fails :: Env where
  "env_allocate_fails = env_ok\<lparr>allocateResult := (\<lambda>tr fl pno. (UNIXERR, pno))\<rparr>"

text \<open>The same, with an index whose removals fail.\<close>

definition env_remove_fails :: Env where
  "env_remove_fails = env_ok\<lparr>removeResult := (\<lambda>h fl pno. HASHTBLERROR)\<rparr>"

text \<open>A frame that holds page \<open>pno\<close> of file 7, and a pool made of given descriptors.\<close>

definition frame7 :: "nat \<Rightarrow> int \<Rightarrow> int \<Rightarrow> bool \<Rightarrow> bool \<Rightarrow> BufDesc" where
  "frame7 i pno pins dty rf =
     \<lparr>filePtr = 7, pageNo = pno, frameNo = i, pinCnt = pins, dirty = dty, valid = True,
      refbit = rf\<rparr>"

definition pool_of :: "BufDesc list \<Rightarrow> nat \<Rightarrow> BufMgr" where
  "pool_of ds hand =
     \<lparr>bufTable = ds,
      bufPool = map (\<lambda>d. 100 + frameNo d) ds,
      hashTable = map (\<lambda>d. ((filePtr d, pageNo d), frameNo d)) (filter valid ds),
      clockHand = hand,
      trace = []\<rparr>"

text \<open>The state components of the results.\<close>

definition allocPage_state :: "Env \<Rightarrow> File \<Rightarrow> int \<Rightarrow> BufMgr \<Rightarrow> BufMgr" where
  "allocPage_state env fl pno s = snd (snd (snd (allocPage env fl pno s)))"

definition unPinPage_state :: "File \<Rightarrow> int \<Rightarrow> bool \<Rightarrow> BufMgr \<Rightarrow> BufMgr" where
  "unPinPage_state fl pno isDirty s = snd (unPinPage fl pno isDirty s)"

text \<open>
  Runs from a fresh pool of two frames: one page allocated; two pages allocated (both
  pinned); then the second unpinned, a third allocated over it and unpinned again.
\<close>

definition run_one_page :: BufMgr where
  "run_one_page = allocPage_state env_ok 7 0 (BufMgr_new 2)"

definition run_two_pages :: BufMgr where
  "run_two_pages = allocPage_state env_ok 7 0 run_one_page"

definition run_third_page :: BufMgr where
  "run_third_page =
     unPinPage_state 7 3 False
       (allocPage_state env_ok 7 0 (unPinPage_state 7 2 False run_two_pages))"

text \<open>Two pages allocated, the first unpinned as dirty: frame 0 dirty, frame 1 pinned.\<close>

definition run_dirty_then_pinned :: BufMgr where
  "run_dirty_then_pinned = unPinPage_state 7 1 True run_two_pages"

text \<open>
  Calls on a pool of two frames, three of which return an error although the File never
  fails: the third allocPage finds both frames pinned, flushFile meets the pinned page 2
  after it has flushed page 1, and the second unPinPage names a page that is not cached.
\<close>

definition calls_with_errors :: "call list" where
  "calls_with_errors =
     [AllocPage 7 0, AllocPage 7 0, AllocPage 7 0, UnPinPage 7 1 True, FlushFile 7,
      UnPinPage 7 9 False, DisposePage 7 2, AllocPage 7 0]"

text \<open>
  Calls on a pool of two frames whose third allocPage evicts the dirty page 1; two more
  calls follow.
\<close>

definition calls_failed_eviction :: "call list" where
  "calls_failed_eviction =
     [AllocPage 7 0, AllocPage 7 0, UnPinPage 7 1 True, AllocPage 7 0, UnPinPage 7 2 False,
      AllocPage 7 0]"

section \<open>Properties\<close>

subsection \<open>Evaluation of the examples\<close>

lemma pool_of_simps:
  "bufTable (pool_of ds hand) = ds"
  "bufPool (pool_of ds hand) = map (\<lambda>d. 100 + frameNo d) ds"
  "hashTable (pool_of ds hand) = map (\<lambda>d. ((filePtr d, pageNo d), frameNo d)) (filter valid ds)"
  "clockHand (pool_of ds hand) = hand"
  "trace (pool_of ds hand) = []"
  "numBufs (pool_of ds hand) = length ds"
  by (simp_all add: pool_of_def numBufs_def)

lemma frame7_simps:
  "filePtr (frame7 i pno pins dty rf) = 7"
  "pageNo (frame7 i pno pins dty rf) = pno"
  "frameNo (frame7 i pno pins dty rf) = i"
  "pinCnt (frame7 i pno pins dty rf) = pins"
  "dirty (frame7 i pno pins dty rf) = dty"
  "valid (frame7 i pno pins dty rf) = True"
  "refbit (frame7 i pno pins dty rf) = rf"
  by (simp_all add: frame7_def)

lemma run_one_page_eq:
  "run_one_page =
     \<lparr>bufTable = [frame7 0 1 1 False True,
                  \<lparr>filePtr = 0, pageNo = 0, frameNo = 1, pinCnt = 0, dirty = False,
                   valid = False, refbit = False\<rparr>],
      bufPool = [0, 0], hashTable = [((7, 1), 0)], clockHand = 0,
      trace = [FileAllocate 7, HtInsert 7 1 0]\<rparr>"
  by code_simp

lemma run_two_pages_eq:
  "run_two_pages =
     \<lparr>bufTable = [frame7 0 1 1 False True, frame7 1 2 1 False True],
      bufPool = [0, 0], hashTable = [((7, 2), 1), ((7, 1), 0)], clockHand = 1,
      trace = [FileAllocate 7, HtInsert 7 1 0, FileAllocate 7, HtInsert 7 2 1]\<rparr>"
  by code_simp

lemma run_third_page_eq:
  "run_third_page =
     \<lparr>bufTable = [frame7 0 1 1 False False, frame7 1 3 0 False True],
      bufPool = [0, 0], hashTable = [((7, 3), 1), ((7, 1), 0)], clockHand = 1,
      trace = [FileAllocate 7, HtInsert 7 1 0, FileAllocate 7, HtInsert 7 2 1,
               FileAllocate 7, HtRemove 7 2, HtInsert 7 3 1]\<rparr>"
  by code_simp

subsection \<open>Descriptor updates\<close>

lemma nth_updDesc:
  "bufTable (updDesc k g s) ! i =
     (if i = k \<and> k < length (bufTable s) then g (bufTable s ! k) else bufTable s ! i)"
  by (cases "i = k") (auto simp: updDesc_def list_update_beyond not_less)

lemma updDesc_fields [simp]:
  "length (bufTable (updDesc k g s)) = length (bufTable s)"
  "hashTable (updDesc k g s) = hashTable s"
  "trace (updDesc k g s) = trace s"
  "bufPool (updDesc k g s) = bufPool s"
  "clockHand (updDesc k g s) = clockHand s"
  "numBufs (updDesc k g s) = numBufs s"
  by (simp_all add: updDesc_def numBufs_def)

lemma numBufs_updates [simp]:
  "numBufs (s\<lparr>clockHand := h\<rparr>) = numBufs s"
  "numBufs (s\<lparr>trace := tr\<rparr>) = numBufs s"
  "numBufs (s\<lparr>hashTable := ht\<rparr>) = numBufs s"
  "numBufs (s\<lparr>bufPool := bp\<rparr>) = numBufs s"
  by (simp_all add: numBufs_def)

subsection \<open>readPage\<close>

text \<open>
The test of line 162, \<open>rc != OK || rc != HASHNOTFOUND\<close>, holds for every status, so
readPage returns the status of the index lookup and does nothing else.
\<close>

lemma readPage_eq:
  "readPage env fl pno s = (fst (BufHashTbl_lookup (hashTable s) fl pno 0), None, s)"
  by (simp add: readPage_def BufHashTbl_lookup_def split: option.splits)

text \<open>
C1 (the code departs from the claim). In the pool \<open>run_one_page\<close> page 1 of file 7 is
cached in frame 0 with pin count 1. readPage on it returns OK, assigns no page and leaves
the state as it was: the pin count is not incremented and the reference bit is not
touched. readPage on page 2, which is not cached, returns HASHNOTFOUND: no frame is
obtained, nothing is read, nothing is inserted.
\<close>

theorem readPage_hit_does_not_pin:
  "map_of (hashTable run_one_page) (7, 1) = Some 0 \<and>
   pinCnt (bufTable run_one_page ! 0) = 1 \<and>
   readPage env_ok 7 1 run_one_page = (OK, None, run_one_page) \<and>
   map_of (hashTable run_one_page) (7, 2) = None \<and>
   readPage env_ok 7 2 run_one_page = (HASHNOTFOUND, None, run_one_page)"
  unfolding readPage_eq run_one_page_eq
  by (simp add: BufHashTbl_lookup_def frame7_def)

text \<open>
The pin count of the page after the hit is still 1.
\<close>

theorem readPage_hit_does_not_pin_witness:
  "pinCnt (bufTable (snd (snd (readPage env_ok 7 1 run_one_page))) ! 0) = 1"
  using readPage_hit_does_not_pin by simp

subsection \<open>unPinPage\<close>

text \<open>
C6. unPinPage on a page that is not in the index returns HASHNOTFOUND and the state is
unchanged; on a page cached in a frame of the pool whose pin count is 0 it returns
PAGENOTPINNED and the state is unchanged; otherwise it returns OK, the pin count is one
less and the dirty bit is the old one or-ed with the parameter, so it is set when the
parameter is true and never cleared. In every case the log of collaborator calls, the
index and the pool are unchanged: no I/O.
\<close>

theorem unPinPage_cases:
  "(map_of (hashTable s) (fl, pno) = None \<longrightarrow>
      unPinPage fl pno isDirty s = (HASHNOTFOUND, s)) \<and>
   (\<forall>fr. map_of (hashTable s) (fl, pno) = Some fr \<and> fr < numBufs s \<and>
         pinCnt (bufTable s ! fr) = 0 \<longrightarrow>
      unPinPage fl pno isDirty s = (PAGENOTPINNED, s)) \<and>
   (\<forall>fr. map_of (hashTable s) (fl, pno) = Some fr \<and> fr < numBufs s \<and>
         pinCnt (bufTable s ! fr) \<noteq> 0 \<longrightarrow>
      fst (unPinPage fl pno isDirty s) = OK \<and>
      pinCnt (bufTable (snd (unPinPage fl pno isDirty s)) ! fr) = pinCnt (bufTable s ! fr) - 1 \<and>
      dirty (bufTable (snd (unPinPage fl pno isDirty s)) ! fr)
        = (dirty (bufTable s ! fr) \<or> isDirty)) \<and>
   trace (snd (unPinPage fl pno isDirty s)) = trace s \<and>
   hashTable (snd (unPinPage fl pno isDirty s)) = hashTable s \<and>
   bufPool (snd (unPinPage fl pno isDirty s)) = bufPool s"
  by (auto simp: unPinPage_def BufHashTbl_lookup_def updDesc_def numBufs_def Let_def
        split: option.splits)

text \<open>
The three cases: an absent page, a cached page with pin count 0, and a dirty page with pin
count 2 unpinned with \<open>dirty = false\<close> (its dirty bit stays set).
\<close>

theorem unPinPage_cases_witness:
  "map_of (hashTable run_one_page) (7, 5) = None \<and>
   unPinPage 7 5 True run_one_page = (HASHNOTFOUND, run_one_page) \<and>
   map_of (hashTable (pool_of [frame7 0 1 0 True False] 0)) (7, 1) = Some 0 \<and>
   0 < numBufs (pool_of [frame7 0 1 0 True False] 0) \<and>
   pinCnt (bufTable (pool_of [frame7 0 1 0 True False] 0) ! 0) = 0 \<and>
   unPinPage 7 1 True (pool_of [frame7 0 1 0 True False] 0)
     = (PAGENOTPINNED, pool_of [frame7 0 1 0 True False] 0) \<and>
   map_of (hashTable (pool_of [frame7 0 1 2 True True] 0)) (7, 1) = Some 0 \<and>
   0 < numBufs (pool_of [frame7 0 1 2 True True] 0) \<and>
   pinCnt (bufTable (pool_of [frame7 0 1 2 True True] 0) ! 0) \<noteq> 0 \<and>
   fst (unPinPage 7 1 False (pool_of [frame7 0 1 2 True True] 0)) = OK \<and>
   pinCnt (bufTable (snd (unPinPage 7 1 False (pool_of [frame7 0 1 2 True True] 0))) ! 0) = 1 \<and>
   dirty (bufTable (snd (unPinPage 7 1 False (pool_of [frame7 0 1 2 True True] 0))) ! 0) \<and>
   trace (snd (unPinPage 7 1 False (pool_of [frame7 0 1 2 True True] 0))) = []"
  using unPinPage_cases[of run_one_page 7 5 True]
        unPinPage_cases[of "pool_of [frame7 0 1 0 True False] 0" 7 1 True]
        unPinPage_cases[of "pool_of [frame7 0 1 2 True True] 0" 7 1 False]
  by (simp add: run_one_page_eq pool_of_def frame7_def numBufs_def)

text \<open>
C10. Whatever unPinPage returns, every frame keeps its reference bit, its validity, its
file, its page number and its frame number; a frame other than the one the index gives
for the page keeps its whole descriptor; the number of frames and the clock hand are
unchanged. So only the pin count and the dirty bit of the looked-up frame can change.
\<close>

theorem unPinPage_frame_effect:
  "(\<forall>i. refbit (bufTable (snd (unPinPage fl pno isDirty s)) ! i) = refbit (bufTable s ! i) \<and>
        valid (bufTable (snd (unPinPage fl pno isDirty s)) ! i) = valid (bufTable s ! i) \<and>
        filePtr (bufTable (snd (unPinPage fl pno isDirty s)) ! i) = filePtr (bufTable s ! i) \<and>
        pageNo (bufTable (snd (unPinPage fl pno isDirty s)) ! i) = pageNo (bufTable s ! i) \<and>
        frameNo (bufTable (snd (unPinPage fl pno isDirty s)) ! i) = frameNo (bufTable s ! i)) \<and>
   (\<forall>i. map_of (hashTable s) (fl, pno) \<noteq> Some i \<longrightarrow>
        bufTable (snd (unPinPage fl pno isDirty s)) ! i = bufTable s ! i) \<and>
   length (bufTable (snd (unPinPage fl pno isDirty s))) = length (bufTable s) \<and>
   clockHand (snd (unPinPage fl pno isDirty s)) = clockHand s"
  by (simp add: unPinPage_def BufHashTbl_lookup_def Let_def nth_updDesc
        split: option.splits)

text \<open>
Unpinning page 2 (frame 1) of \<open>run_two_pages\<close> leaves frame 0 and the reference bit of
frame 1 as they were.
\<close>

theorem unPinPage_frame_effect_witness:
  "map_of (hashTable run_two_pages) (7, 2) \<noteq> Some 0 \<and>
   bufTable (snd (unPinPage 7 2 True run_two_pages)) ! 0 = bufTable run_two_pages ! 0 \<and>
   refbit (bufTable (snd (unPinPage 7 2 True run_two_pages)) ! 1)
     = refbit (bufTable run_two_pages ! 1)"
  using unPinPage_frame_effect[of 7 2 True run_two_pages]
  by (simp add: run_two_pages_eq)

subsection \<open>The replacement scan\<close>

declare allocBuf_loop.simps [simp del]

lemma loop_exit:
  "\<not> n < numBufs s \<Longrightarrow> allocBuf_loop n s = (n, s)"
  by (subst allocBuf_loop.simps) simp

lemma loop_select:
  assumes "n < numBufs s"
    and "\<not> valid (bufTable s ! ((clockHand s + 1) mod numBufs s)) \<or>
         (\<not> refbit (bufTable s ! ((clockHand s + 1) mod numBufs s)) \<and>
          pinCnt (bufTable s ! ((clockHand s + 1) mod numBufs s)) = 0)"
  shows "allocBuf_loop n s = (n, s\<lparr>clockHand := (clockHand s + 1) mod numBufs s\<rparr>)"
  using assms by (subst allocBuf_loop.simps) (auto simp: Let_def)

lemma loop_pinned:
  assumes "n < numBufs s"
    and "valid (bufTable s ! ((clockHand s + 1) mod numBufs s))"
    and "\<not> refbit (bufTable s ! ((clockHand s + 1) mod numBufs s))"
    and "pinCnt (bufTable s ! ((clockHand s + 1) mod numBufs s)) \<noteq> 0"
  shows "allocBuf_loop n s =
         allocBuf_loop (n + 1) (s\<lparr>clockHand := (clockHand s + 1) mod numBufs s\<rparr>)"
  using assms by (subst allocBuf_loop.simps) (auto simp: Let_def)

lemma loop_second_chance:
  assumes "n < numBufs s"
    and "valid (bufTable s ! ((clockHand s + 1) mod numBufs s))"
    and "refbit (bufTable s ! ((clockHand s + 1) mod numBufs s))"
  shows "allocBuf_loop n s =
         allocBuf_loop n (updDesc ((clockHand s + 1) mod numBufs s) (\<lambda>d. d\<lparr>refbit := False\<rparr>)
                            (s\<lparr>clockHand := (clockHand s + 1) mod numBufs s\<rparr>))"
  using assms by (subst allocBuf_loop.simps) (auto simp: Let_def)

text \<open>
An induction rule that follows the four cases of the loop.
\<close>

lemma loop_induct [consumes 0, case_names exit select pinned second_chance]:
  assumes "\<And>n s. \<not> n < numBufs s \<Longrightarrow> P n s"
    and "\<And>n s h. n < numBufs s \<Longrightarrow> h = (clockHand s + 1) mod numBufs s \<Longrightarrow>
           \<not> valid (bufTable s ! h) \<or> (\<not> refbit (bufTable s ! h) \<and> pinCnt (bufTable s ! h) = 0) \<Longrightarrow>
           P n s"
    and "\<And>n s h. n < numBufs s \<Longrightarrow> h = (clockHand s + 1) mod numBufs s \<Longrightarrow>
           valid (bufTable s ! h) \<Longrightarrow> \<not> refbit (bufTable s ! h) \<Longrightarrow> pinCnt (bufTable s ! h) \<noteq> 0 \<Longrightarrow>
           P (n + 1) (s\<lparr>clockHand := h\<rparr>) \<Longrightarrow> P n s"
    and "\<And>n s h. n < numBufs s \<Longrightarrow> h = (clockHand s + 1) mod numBufs s \<Longrightarrow>
           valid (bufTable s ! h) \<Longrightarrow> refbit (bufTable s ! h) \<Longrightarrow>
           P n (updDesc h (\<lambda>d. d\<lparr>refbit := False\<rparr>) (s\<lparr>clockHand := h\<rparr>)) \<Longrightarrow> P n s"
  shows "P n s"
proof (induction n s rule: allocBuf_loop.induct)
  case (1 numPins s)
  let ?h = "(clockHand s + 1) mod numBufs s"
  show ?case
  proof (cases "numPins < numBufs s")
    case False
    then show ?thesis by (rule assms(1))
  next
    case lt: True
    show ?thesis
    proof (cases "valid (bufTable s ! ?h)")
      case False
      with lt show ?thesis by (intro assms(2)[of numPins s ?h]) auto
    next
      case v: True
      show ?thesis
      proof (cases "refbit (bufTable s ! ?h)")
        case r: True
        have "P numPins (updDesc ?h (\<lambda>d. d\<lparr>refbit := False\<rparr>) (s\<lparr>clockHand := ?h\<rparr>))"
          using "1.IH"(2)[OF lt refl refl] v r by simp
        with lt v r show ?thesis by (intro assms(4)[of numPins s ?h]) auto
      next
        case nr: False
        show ?thesis
        proof (cases "pinCnt (bufTable s ! ?h) = 0")
          case True
          with lt nr show ?thesis by (intro assms(2)[of numPins s ?h]) auto
        next
          case False
          have "P (numPins + 1) (s\<lparr>clockHand := ?h\<rparr>)"
            using "1.IH"(1)[OF lt refl refl] v nr False by simp
          with lt v nr False show ?thesis by (intro assms(3)[of numPins s ?h]) auto
        qed
      qed
    qed
  qed
qed

text \<open>
The scan changes nothing but the clock hand and reference bits, which it only clears.
\<close>

lemma loop_frame:
  "hashTable (snd (allocBuf_loop n s)) = hashTable s \<and>
   trace (snd (allocBuf_loop n s)) = trace s \<and>
   bufPool (snd (allocBuf_loop n s)) = bufPool s \<and>
   length (bufTable (snd (allocBuf_loop n s))) = length (bufTable s) \<and>
   (\<forall>i. (bufTable (snd (allocBuf_loop n s)) ! i)\<lparr>refbit := False\<rparr>
          = (bufTable s ! i)\<lparr>refbit := False\<rparr>) \<and>
   (\<forall>i. refbit (bufTable (snd (allocBuf_loop n s)) ! i) \<longrightarrow> refbit (bufTable s ! i))"
proof (induction n s rule: loop_induct)
  case (exit n s)
  then show ?case by (simp add: loop_exit)
next
  case (select n s h)
  then show ?case by (simp add: loop_select)
next
  case (pinned n s h)
  then show ?case by (simp add: loop_pinned)
next
  case (second_chance n s h)
  then show ?case by (auto simp: loop_second_chance nth_updDesc split: if_splits)
qed

lemma loop_numBufs [simp]: "numBufs (snd (allocBuf_loop n s)) = numBufs s"
  by (simp add: numBufs_def loop_frame)

lemma loop_count:
  "n \<le> fst (allocBuf_loop n s) \<and> (n \<le> numBufs s \<longrightarrow> fst (allocBuf_loop n s) \<le> numBufs s)"
proof (induction n s rule: loop_induct)
  case (exit n s)
  then show ?case by (simp add: loop_exit)
next
  case (select n s h)
  then show ?case by (simp add: loop_select)
next
  case (pinned n s h)
  then show ?case by (simp add: loop_pinned numBufs_def)
next
  case (second_chance n s h)
  then show ?case by (simp add: loop_second_chance)
qed

lemma loop_selected:
  "fst (allocBuf_loop n s) < numBufs s \<Longrightarrow>
   clockHand (snd (allocBuf_loop n s)) < numBufs s \<and>
   (\<not> valid (bufTable (snd (allocBuf_loop n s)) ! clockHand (snd (allocBuf_loop n s))) \<or>
    (\<not> refbit (bufTable (snd (allocBuf_loop n s)) ! clockHand (snd (allocBuf_loop n s))) \<and>
     pinCnt (bufTable (snd (allocBuf_loop n s)) ! clockHand (snd (allocBuf_loop n s))) = 0))"
proof (induction n s rule: loop_induct)
  case (exit n s)
  then show ?case using loop_count[of n s] by (simp add: loop_exit)
next
  case (select n s h)
  then show ?case by (auto simp: loop_select)
next
  case (pinned n s h)
  then show ?case by (simp add: loop_pinned numBufs_def)
next
  case (second_chance n s h)
  then show ?case by (simp add: loop_second_chance)
qed

lemma loop_all_pinned:
  "\<forall>i<numBufs s. valid (bufTable s ! i) \<and> pinCnt (bufTable s ! i) \<noteq> 0 \<Longrightarrow>
   numBufs s \<le> fst (allocBuf_loop n s)"
proof (induction n s rule: loop_induct)
  case (exit n s)
  then show ?case by (simp add: loop_exit)
next
  case (select n s h)
  then have "h < numBufs s" by simp
  with select show ?case by auto
next
  case (pinned n s h)
  then show ?case by (simp add: loop_pinned numBufs_def)
next
  case (second_chance n s h)
  then show ?case by (simp add: loop_second_chance nth_updDesc numBufs_def)
qed

lemma loop_fields:
  "valid (bufTable (snd (allocBuf_loop n s)) ! i) = valid (bufTable s ! i)"
  "pinCnt (bufTable (snd (allocBuf_loop n s)) ! i) = pinCnt (bufTable s ! i)"
  "dirty (bufTable (snd (allocBuf_loop n s)) ! i) = dirty (bufTable s ! i)"
  "filePtr (bufTable (snd (allocBuf_loop n s)) ! i) = filePtr (bufTable s ! i)"
  "pageNo (bufTable (snd (allocBuf_loop n s)) ! i) = pageNo (bufTable s ! i)"
  "frameNo (bufTable (snd (allocBuf_loop n s)) ! i) = frameNo (bufTable s ! i)"
proof -
  have e: "(bufTable (snd (allocBuf_loop n s)) ! i)\<lparr>refbit := False\<rparr>
             = (bufTable s ! i)\<lparr>refbit := False\<rparr>"
    using loop_frame[of n s] by simp
  show "valid (bufTable (snd (allocBuf_loop n s)) ! i) = valid (bufTable s ! i)"
    using arg_cong[OF e, of valid] by simp
  show "pinCnt (bufTable (snd (allocBuf_loop n s)) ! i) = pinCnt (bufTable s ! i)"
    using arg_cong[OF e, of pinCnt] by simp
  show "dirty (bufTable (snd (allocBuf_loop n s)) ! i) = dirty (bufTable s ! i)"
    using arg_cong[OF e, of dirty] by simp
  show "filePtr (bufTable (snd (allocBuf_loop n s)) ! i) = filePtr (bufTable s ! i)"
    using arg_cong[OF e, of filePtr] by simp
  show "pageNo (bufTable (snd (allocBuf_loop n s)) ! i) = pageNo (bufTable s ! i)"
    using arg_cong[OF e, of pageNo] by simp
  show "frameNo (bufTable (snd (allocBuf_loop n s)) ! i) = frameNo (bufTable s ! i)"
    using arg_cong[OF e, of frameNo] by simp
qed

lemma allocBuf_state:
  "bufTable (snd (snd (allocBuf env frame s))) = bufTable (snd (allocBuf_loop 0 s)) \<and>
   clockHand (snd (snd (allocBuf env frame s))) = clockHand (snd (allocBuf_loop 0 s)) \<and>
   bufPool (snd (snd (allocBuf env frame s))) = bufPool s"
  using loop_frame[of 0 s]
  by (simp add: allocBuf_def BufHashTbl_remove_def File_writePage_def Let_def case_prod_beta)

lemma allocBuf_OK_selected:
  "fst (allocBuf env frame s) = OK \<Longrightarrow>
   fst (allocBuf_loop 0 s) < numBufs s \<and>
   fst (snd (allocBuf env frame s)) = frameNo (bufTable s ! clockHand (snd (allocBuf_loop 0 s)))"
  using loop_fields(6)[of 0 s]
  by (auto simp: allocBuf_def BufHashTbl_remove_def File_writePage_def Let_def case_prod_beta
      split: if_splits)

text \<open>
The scan visits the frames in cyclic order: every frame is \<open>k\<close> steps ahead of the hand
for some \<open>k\<close> below the number of frames.
\<close>

lemma position_exists:
  assumes "j < N"
  shows "\<exists>k<N. (c + 1 + k) mod N = (j::nat)"
proof -
  let ?m = "(c + 1) mod N"
  from assms have N: "0 < N" by simp
  then have m: "?m < N" by simp
  let ?k = "(j + N - ?m) mod N"
  have "(c + 1 + ?k) mod N = (c + 1 + (j + N - ?m)) mod N"
    by (rule mod_add_right_eq)
  also have "\<dots> = (?m + (j + N - ?m)) mod N"
    by (rule mod_add_left_eq[symmetric])
  also have "?m + (j + N - ?m) = j + N" using m by simp
  also have "(j + N) mod N = j" using assms by simp
  finally have "(c + 1 + ?k) mod N = j" .
  moreover have "?k < N" using N by simp
  ultimately show ?thesis by blast
qed

lemma next_position:
  "0 < N \<Longrightarrow> ((c + 1) mod N + 1 + k) mod N = (c + 1 + Suc k) mod (N::nat)"
  using mod_add_left_eq[of "c + 1" N "1 + k"] by simp

lemma scan_reaches_candidate:
  assumes "j < numBufs s"
    and "\<not> valid (bufTable s ! j) \<or> (\<not> refbit (bufTable s ! j) \<and> pinCnt (bufTable s ! j) = 0)"
    and "(clockHand s + 1 + k) mod numBufs s = j"
    and "n + k < numBufs s"
  shows "fst (allocBuf_loop n s) < numBufs s"
  using assms
proof (induction k arbitrary: n s)
  case 0
  then show ?case by (simp add: loop_select)
next
  case (Suc k)
  let ?h = "(clockHand s + 1) mod numBufs s"
  let ?d = "bufTable s ! ?h"
  from Suc.prems have n: "n < numBufs s" and N: "0 < numBufs s" by simp_all
  have pos: "(?h + 1 + k) mod numBufs s = j"
    using Suc.prems(3) next_position[OF N, of "clockHand s" k] by simp
  show ?case
  proof (cases "\<not> valid ?d \<or> (\<not> refbit ?d \<and> pinCnt ?d = 0)")
    case True
    with n show ?thesis by (simp add: loop_select)
  next
    case False
    then have v: "valid ?d" by auto
    have ne: "?h \<noteq> j" using False Suc.prems(2) by auto
    show ?thesis
    proof (cases "refbit ?d")
      case True
      let ?s1 = "updDesc ?h (\<lambda>d. d\<lparr>refbit := False\<rparr>) (s\<lparr>clockHand := ?h\<rparr>)"
      have "fst (allocBuf_loop n ?s1) < numBufs ?s1"
        using Suc.prems ne pos by (intro Suc.IH) (simp_all add: nth_updDesc)
      with n v True show ?thesis by (simp add: loop_second_chance)
    next
      case r: False
      with False have p: "pinCnt ?d \<noteq> 0" by auto
      let ?s1 = "s\<lparr>clockHand := ?h\<rparr>"
      have "fst (allocBuf_loop (n + 1) ?s1) < numBufs ?s1"
        using Suc.prems pos by (intro Suc.IH) simp_all
      with n v r p show ?thesis by (simp add: loop_pinned)
    qed
  qed
qed

text \<open>
If some frame is invalid, or has its reference bit clear and pin count 0, the scan selects
a frame: allocBuf returns BUFFEREXCEEDED only if that is the status of the index removal.
\<close>

lemma scan_selects_candidate:
  assumes "j < numBufs s"
    and "\<not> valid (bufTable s ! j) \<or> (\<not> refbit (bufTable s ! j) \<and> pinCnt (bufTable s ! j) = 0)"
  shows "fst (allocBuf_loop 0 s) < numBufs s"
    and "fst (allocBuf env frame s) \<noteq> BUFFEREXCEEDED \<or>
         fst (allocBuf env frame s)
           = removeResult env (hashTable s)
               (filePtr (bufTable s ! clockHand (snd (allocBuf_loop 0 s))))
               (pageNo (bufTable s ! clockHand (snd (allocBuf_loop 0 s))))"
proof -
  from position_exists[OF assms(1), of "clockHand s"] obtain k where
    "k < numBufs s" "(clockHand s + 1 + k) mod numBufs s = j" by blast
  with assms show sel: "fst (allocBuf_loop 0 s) < numBufs s"
    by (intro scan_reaches_candidate[where j = j and k = k]) simp_all
  then show "fst (allocBuf env frame s) \<noteq> BUFFEREXCEEDED \<or>
         fst (allocBuf env frame s)
           = removeResult env (hashTable s)
               (filePtr (bufTable s ! clockHand (snd (allocBuf_loop 0 s))))
               (pageNo (bufTable s ! clockHand (snd (allocBuf_loop 0 s))))"
    using loop_frame[of 0 s]
    by (simp add: allocBuf_def case_prod_beta Let_def BufHashTbl_remove_def File_writePage_def
          loop_fields)
qed

lemma all_pinned_clears:
  assumes "\<forall>i<numBufs s. valid (bufTable s ! i) \<and> pinCnt (bufTable s ! i) \<noteq> 0"
    and "j < numBufs s"
    and "(clockHand s + 1 + k) mod numBufs s = j"
    and "refbit (bufTable (snd (allocBuf_loop n s)) ! j)"
    and "n < numBufs s"
  shows "fst (allocBuf_loop n s) \<le> n + k"
  using assms
proof (induction k arbitrary: n s)
  case 0
  let ?h = "(clockHand s + 1) mod numBufs s"
  from 0 have hj: "?h = j" by simp
  from 0 have v: "valid (bufTable s ! j)" and p: "pinCnt (bufTable s ! j) \<noteq> 0" by auto
  show ?case
  proof (cases "refbit (bufTable s ! j)")
    case True
    let ?s1 = "updDesc j (\<lambda>d. d\<lparr>refbit := False\<rparr>) (s\<lparr>clockHand := j\<rparr>)"
    have "allocBuf_loop n s = allocBuf_loop n ?s1"
      using 0 v True hj by (simp add: loop_second_chance)
    with "0.prems"(4) have "refbit (bufTable (snd (allocBuf_loop n ?s1)) ! j)" by simp
    with loop_frame[of n ?s1] have "refbit (bufTable ?s1 ! j)" by blast
    with "0.prems"(2) show ?thesis by (simp add: nth_updDesc numBufs_def)
  next
    case False
    with "0.prems"(4) loop_frame[of n s] show ?thesis by blast
  qed
next
  case (Suc k)
  let ?h = "(clockHand s + 1) mod numBufs s"
  let ?d = "bufTable s ! ?h"
  from Suc.prems have n: "n < numBufs s" and N: "0 < numBufs s" by simp_all
  then have h: "?h < numBufs s" by simp
  with Suc.prems(1) have v: "valid ?d" and p: "pinCnt ?d \<noteq> 0" by auto
  have pos: "(?h + 1 + k) mod numBufs s = j"
    using Suc.prems(3) next_position[OF N, of "clockHand s" k] by simp
  show ?case
  proof (cases "refbit ?d")
    case True
    let ?s1 = "updDesc ?h (\<lambda>d. d\<lparr>refbit := False\<rparr>) (s\<lparr>clockHand := ?h\<rparr>)"
    have eq: "allocBuf_loop n s = allocBuf_loop n ?s1"
      using n v True by (simp add: loop_second_chance)
    have "fst (allocBuf_loop n ?s1) \<le> n + k"
      using Suc.prems pos eq by (intro Suc.IH) (simp_all add: nth_updDesc)
    with eq show ?thesis by simp
  next
    case False
    let ?s1 = "s\<lparr>clockHand := ?h\<rparr>"
    have eq: "allocBuf_loop n s = allocBuf_loop (n + 1) ?s1"
      using n v p False by (simp add: loop_pinned)
    show ?thesis
    proof (cases "n + 1 < numBufs s")
      case True
      have "fst (allocBuf_loop (n + 1) ?s1) \<le> n + 1 + k"
        using Suc.prems pos eq True by (intro Suc.IH) simp_all
      with eq show ?thesis by simp
    next
      case False
      then have "allocBuf_loop (n + 1) ?s1 = (n + 1, ?s1)" by (simp add: loop_exit)
      with eq show ?thesis by simp
    qed
  qed
qed

lemma all_pinned_refbits_clear:
  assumes "\<forall>i<numBufs s. valid (bufTable s ! i) \<and> pinCnt (bufTable s ! i) \<noteq> 0"
    and "j < numBufs s"
  shows "\<not> refbit (bufTable (snd (allocBuf_loop 0 s)) ! j)"
proof
  assume r: "refbit (bufTable (snd (allocBuf_loop 0 s)) ! j)"
  from position_exists[OF assms(2), of "clockHand s"] obtain k where
    k: "k < numBufs s" "(clockHand s + 1 + k) mod numBufs s = j" by blast
  from assms(2) have "0 < numBufs s" by simp
  from all_pinned_clears[OF assms(1,2) k(2) r this] k(1)
  have "fst (allocBuf_loop 0 s) < numBufs s" by simp
  with loop_all_pinned[OF assms(1), of 0] show False by simp
qed

lemma pinsConsistentD:
  "pinsConsistent s \<Longrightarrow> i < numBufs s \<Longrightarrow>
   0 \<le> pinCnt (bufTable s ! i) \<and> (\<not> valid (bufTable s ! i) \<longrightarrow> pinCnt (bufTable s ! i) = 0)"
  by (simp add: pinsConsistent_def)

text \<open>
C4. One step of the scan, with fewer than \<open>numBufs\<close> pinned frames met so far: the hand
moves to \<open>h = (clockHand + 1) mod numBufs\<close>, a frame of the pool. If that frame is not
valid the scan stops there (the frame is selected). If it is valid with its reference bit
set, the bit is cleared and the scan goes on with the same count. If it is valid with the
bit clear and pin count 0 the scan stops there (selected). If it is valid with the bit clear
and pinned, the scan goes on with the count one higher. Consequently, whenever the scan
selects a frame (it ends with a count below \<open>numBufs\<close>), and whenever allocBuf returns
OK, the frame under the hand is a frame of the pool that was invalid or had pin count 0:
a valid frame with a pin count above 0 is never the victim. In a pool whose invalid frames
have pin count 0 (\<open>pinsConsistent\<close>, which the constructor establishes and every operation
keeps), the selected frame has pin count 0.
\<close>

theorem clock_step:
  assumes "n < numBufs s" and "h = (clockHand s + 1) mod numBufs s" and "d = bufTable s ! h"
  shows "h < numBufs s \<and>
    (\<not> valid d \<longrightarrow> allocBuf_loop n s = (n, s\<lparr>clockHand := h\<rparr>)) \<and>
    (valid d \<and> refbit d \<longrightarrow>
       allocBuf_loop n s =
       allocBuf_loop n (updDesc h (\<lambda>d. d\<lparr>refbit := False\<rparr>) (s\<lparr>clockHand := h\<rparr>))) \<and>
    (valid d \<and> \<not> refbit d \<and> pinCnt d = 0 \<longrightarrow> allocBuf_loop n s = (n, s\<lparr>clockHand := h\<rparr>)) \<and>
    (valid d \<and> \<not> refbit d \<and> pinCnt d \<noteq> 0 \<longrightarrow>
       allocBuf_loop n s = allocBuf_loop (n + 1) (s\<lparr>clockHand := h\<rparr>)) \<and>
    (fst (allocBuf_loop n s) < numBufs s \<longrightarrow>
       clockHand (snd (allocBuf_loop n s)) < numBufs s \<and>
       (valid (bufTable s ! clockHand (snd (allocBuf_loop n s))) \<longrightarrow>
        pinCnt (bufTable s ! clockHand (snd (allocBuf_loop n s))) = 0)) \<and>
    (\<forall>frame. fst (allocBuf env frame s) = OK \<longrightarrow>
       clockHand (snd (snd (allocBuf env frame s))) < numBufs s \<and>
       fst (snd (allocBuf env frame s))
         = frameNo (bufTable s ! clockHand (snd (snd (allocBuf env frame s)))) \<and>
       (valid (bufTable s ! clockHand (snd (snd (allocBuf env frame s)))) \<longrightarrow>
        pinCnt (bufTable s ! clockHand (snd (snd (allocBuf env frame s)))) = 0)) \<and>
    (pinsConsistent s \<longrightarrow>
       (fst (allocBuf_loop n s) < numBufs s \<longrightarrow>
          pinCnt (bufTable s ! clockHand (snd (allocBuf_loop n s))) = 0) \<and>
       (\<forall>frame. fst (allocBuf env frame s) = OK \<longrightarrow>
          pinCnt (bufTable s ! clockHand (snd (snd (allocBuf env frame s)))) = 0))"
proof -
  have sel: "clockHand (snd (allocBuf_loop m s)) < numBufs s \<and>
       (valid (bufTable s ! clockHand (snd (allocBuf_loop m s))) \<longrightarrow>
        pinCnt (bufTable s ! clockHand (snd (allocBuf_loop m s))) = 0)"
    if "fst (allocBuf_loop m s) < numBufs s" for m
    using loop_selected[OF that] by (auto simp: loop_fields)
  from assms(1) have "h < numBufs s" by (simp add: assms(2))
  moreover have "\<not> valid d \<longrightarrow> allocBuf_loop n s = (n, s\<lparr>clockHand := h\<rparr>)"
    using assms by (simp add: loop_select)
  moreover have "valid d \<and> refbit d \<longrightarrow>
       allocBuf_loop n s =
       allocBuf_loop n (updDesc h (\<lambda>d. d\<lparr>refbit := False\<rparr>) (s\<lparr>clockHand := h\<rparr>))"
    using assms by (simp add: loop_second_chance)
  moreover have "valid d \<and> \<not> refbit d \<and> pinCnt d = 0 \<longrightarrow>
       allocBuf_loop n s = (n, s\<lparr>clockHand := h\<rparr>)"
    using assms by (simp add: loop_select)
  moreover have "valid d \<and> \<not> refbit d \<and> pinCnt d \<noteq> 0 \<longrightarrow>
       allocBuf_loop n s = allocBuf_loop (n + 1) (s\<lparr>clockHand := h\<rparr>)"
    using assms by (simp add: loop_pinned)
  moreover have "\<forall>frame. fst (allocBuf env frame s) = OK \<longrightarrow>
       clockHand (snd (snd (allocBuf env frame s))) < numBufs s \<and>
       fst (snd (allocBuf env frame s))
         = frameNo (bufTable s ! clockHand (snd (snd (allocBuf env frame s)))) \<and>
       (valid (bufTable s ! clockHand (snd (snd (allocBuf env frame s)))) \<longrightarrow>
        pinCnt (bufTable s ! clockHand (snd (snd (allocBuf env frame s)))) = 0)"
    using allocBuf_OK_selected[of env _ s] sel[of 0] by (simp add: allocBuf_state)
  moreover have "pinCnt (bufTable s ! clockHand (snd (allocBuf_loop m s))) = 0"
    if "pinsConsistent s" "fst (allocBuf_loop m s) < numBufs s" for m
    using sel[OF that(2)] pinsConsistentD[OF that(1), of "clockHand (snd (allocBuf_loop m s))"]
    by blast
  moreover have "pinCnt (bufTable s ! clockHand (snd (snd (allocBuf env frame s)))) = 0"
    if "pinsConsistent s" "fst (allocBuf env frame s) = OK" for frame
    using allocBuf_OK_selected[OF that(2)] sel[of 0]
      pinsConsistentD[OF that(1), of "clockHand (snd (allocBuf_loop 0 s))"]
    by (simp add: allocBuf_state) blast
  ultimately show ?thesis using sel[of n] by blast
qed

text \<open>
The four cases at concrete pools of two frames, and an allocation that passes a pinned
frame and selects frame 1.
\<close>

theorem clock_step_witness:
  "0 < numBufs (BufMgr_new 2) \<and> (clockHand (BufMgr_new 2) + 1) mod numBufs (BufMgr_new 2) = 0 \<and>
   \<not> valid (bufTable (BufMgr_new 2) ! 0) \<and>
   allocBuf_loop 0 (BufMgr_new 2) = (0, (BufMgr_new 2)\<lparr>clockHand := 0\<rparr>) \<and>
   0 < numBufs run_two_pages \<and> (clockHand run_two_pages + 1) mod numBufs run_two_pages = 0 \<and>
   valid (bufTable run_two_pages ! 0) \<and> refbit (bufTable run_two_pages ! 0) \<and>
   allocBuf_loop 0 run_two_pages =
     allocBuf_loop 0 (updDesc 0 (\<lambda>d. d\<lparr>refbit := False\<rparr>) (run_two_pages\<lparr>clockHand := 0\<rparr>)) \<and>
   allocBuf_loop 0 (pool_of [frame7 0 1 0 False False, frame7 1 2 1 False False] 1) =
     (0, (pool_of [frame7 0 1 0 False False, frame7 1 2 1 False False] 1)\<lparr>clockHand := 0\<rparr>) \<and>
   allocBuf_loop 0 (pool_of [frame7 0 1 1 False False, frame7 1 2 0 False False] 1) =
     allocBuf_loop 1 ((pool_of [frame7 0 1 1 False False, frame7 1 2 0 False False] 1)\<lparr>clockHand := 0\<rparr>) \<and>
   fst (allocBuf env_ok 0 (pool_of [frame7 0 1 1 False False, frame7 1 2 0 False False] 1)) = OK \<and>
   fst (snd (allocBuf env_ok 0 (pool_of [frame7 0 1 1 False False, frame7 1 2 0 False False] 1))) = 1 \<and>
   pinsConsistent (pool_of [frame7 0 1 1 False False, frame7 1 2 0 False False] 1) \<and>
   pinCnt (bufTable (pool_of [frame7 0 1 1 False False, frame7 1 2 0 False False] 1) ! 1) = 0"
proof -
  let ?p = "pool_of [frame7 0 1 1 False False, frame7 1 2 0 False False] 1"
  have pc: "pinsConsistent ?p"
    by (simp add: pinsConsistent_def pool_of_simps frame7_simps nth_Cons split: nat.splits)
  have ok: "fst (allocBuf env_ok 0 ?p) = OK"
    by code_simp
  have hand: "clockHand (snd (snd (allocBuf env_ok 0 ?p))) = 1"
    by code_simp
  show ?thesis
    using clock_step[where n = 0 and s = "BufMgr_new 2" and h = 0
            and d = "bufTable (BufMgr_new 2) ! 0" and env = env_ok]
          clock_step[where n = 0 and s = run_two_pages and h = 0
            and d = "bufTable run_two_pages ! 0" and env = env_ok]
          clock_step[where n = 0
            and s = "pool_of [frame7 0 1 0 False False, frame7 1 2 1 False False] 1" and h = 0
            and d = "bufTable (pool_of [frame7 0 1 0 False False, frame7 1 2 1 False False] 1) ! 0"
            and env = env_ok]
          clock_step[where n = 0 and s = ?p and h = 0 and d = "bufTable ?p ! 0" and env = env_ok]
          ok hand pc
    by (simp add: run_two_pages_eq BufMgr_new_def pool_of_def frame7_def numBufs_def)
qed

text \<open>
C2 (amended). When every frame is valid with a pin count above 0, allocBuf returns
BUFFEREXCEEDED and hands out no frame; the index, the log of collaborator calls and the
pool are unchanged, and so is every field of every descriptor but the reference bit: the
scan has cleared the reference bit of every frame.
\<close>

theorem allocBuf_all_pinned:
  assumes "\<forall>i<numBufs s. valid (bufTable s ! i) \<and> pinCnt (bufTable s ! i) > 0"
  shows "fst (allocBuf env frame s) = BUFFEREXCEEDED \<and>
         fst (snd (allocBuf env frame s)) = frame \<and>
         hashTable (snd (snd (allocBuf env frame s))) = hashTable s \<and>
         trace (snd (snd (allocBuf env frame s))) = trace s \<and>
         bufPool (snd (snd (allocBuf env frame s))) = bufPool s \<and>
         length (bufTable (snd (snd (allocBuf env frame s)))) = length (bufTable s) \<and>
         (\<forall>i. (bufTable (snd (snd (allocBuf env frame s))) ! i)\<lparr>refbit := False\<rparr>
                = (bufTable s ! i)\<lparr>refbit := False\<rparr>) \<and>
         (\<forall>i<numBufs s. \<not> refbit (bufTable (snd (snd (allocBuf env frame s))) ! i))"
proof -
  from assms have p: "\<forall>i<numBufs s. valid (bufTable s ! i) \<and> pinCnt (bufTable s ! i) \<noteq> 0"
    by auto
  then have ge: "numBufs s \<le> fst (allocBuf_loop 0 s)"
    by (rule loop_all_pinned)
  then have eq: "allocBuf env frame s = (BUFFEREXCEEDED, frame, snd (allocBuf_loop 0 s))"
    by (simp add: allocBuf_def case_prod_beta)
  show ?thesis
    unfolding eq using loop_frame[of 0 s] all_pinned_refbits_clear[OF p] by simp
qed

text \<open>
The pool \<open>run_two_pages\<close>: both frames valid and pinned.
\<close>

theorem allocBuf_all_pinned_witness:
  "numBufs run_two_pages = 2 \<and>
   valid (bufTable run_two_pages ! 0) \<and> pinCnt (bufTable run_two_pages ! 0) > 0 \<and>
   valid (bufTable run_two_pages ! 1) \<and> pinCnt (bufTable run_two_pages ! 1) > 0 \<and>
   fst (allocBuf env_ok 0 run_two_pages) = BUFFEREXCEEDED \<and>
   fst (snd (allocBuf env_ok 0 run_two_pages)) = 0 \<and>
   hashTable (snd (snd (allocBuf env_ok 0 run_two_pages))) = hashTable run_two_pages \<and>
   trace (snd (snd (allocBuf env_ok 0 run_two_pages))) = trace run_two_pages \<and>
   pinCnt (bufTable (snd (snd (allocBuf env_ok 0 run_two_pages))) ! 1) = 1 \<and>
   \<not> refbit (bufTable (snd (snd (allocBuf env_ok 0 run_two_pages))) ! 1)"
proof -
  have h: "\<forall>i<numBufs run_two_pages.
      valid (bufTable run_two_pages ! i) \<and> pinCnt (bufTable run_two_pages ! i) > 0"
    by (simp add: run_two_pages_eq numBufs_def frame7_def less_Suc_eq numeral_2_eq_2)
  have e: "pinCnt (d\<lparr>refbit := False\<rparr>) = pinCnt d" for d :: BufDesc
    by simp
  from allocBuf_all_pinned[OF h, of env_ok 0]
  have "(bufTable (snd (snd (allocBuf env_ok 0 run_two_pages))) ! 1)\<lparr>refbit := False\<rparr>
          = (bufTable run_two_pages ! 1)\<lparr>refbit := False\<rparr>"
    by blast
  then have "pinCnt (bufTable (snd (snd (allocBuf env_ok 0 run_two_pages))) ! 1)
          = pinCnt (bufTable run_two_pages ! 1)"
    using e by metis
  then show ?thesis
    using h allocBuf_all_pinned[OF h, of env_ok 0]
    by (simp add: run_two_pages_eq numBufs_def frame7_def)
qed

text \<open>
C2 as stated fails. In \<open>run_two_pages\<close> both frames are pinned and page 9 is not cached:
readPage returns HASHNOTFOUND, not BUFFEREXCEEDED; and the replacement scan on that pool,
which does return BUFFEREXCEEDED, clears the reference bit of frame 0.
\<close>

theorem fetch_all_pinned_counterexample:
  "numBufs run_two_pages = 2 \<and>
   pinCnt (bufTable run_two_pages ! 0) > 0 \<and> pinCnt (bufTable run_two_pages ! 1) > 0 \<and>
   valid (bufTable run_two_pages ! 0) \<and> valid (bufTable run_two_pages ! 1) \<and>
   map_of (hashTable run_two_pages) (7, 9) = None \<and>
   fst (readPage env_ok 7 9 run_two_pages) = HASHNOTFOUND \<and>
   fst (readPage env_ok 7 9 run_two_pages) \<noteq> BUFFEREXCEEDED \<and>
   fst (allocBuf env_ok 0 run_two_pages) = BUFFEREXCEEDED \<and>
   refbit (bufTable run_two_pages ! 0) \<and>
   \<not> refbit (bufTable (snd (snd (allocBuf env_ok 0 run_two_pages))) ! 0)"
proof -
  have "allocBuf env_ok 0 run_two_pages =
     (BUFFEREXCEEDED, 0,
      run_two_pages\<lparr>bufTable := [frame7 0 1 1 False False, frame7 1 2 1 False False],
                     clockHand := 1\<rparr>)"
    by code_simp
  then show ?thesis
    by (simp add: readPage_eq BufHashTbl_lookup_def run_two_pages_eq frame7_def numBufs_def)
qed

text \<open>
C3 (the code departs from the claim). \<open>run_third_page\<close> is reached from a fresh pool of two
frames by allocPage and unPinPage alone. Its frame 1 is valid with pin count 0, yet
allocBuf, and allocPage with it, return BUFFEREXCEEDED: the scan counts the pinned frame 0
twice, before and after clearing the reference bit of frame 1. (The rest of the claim
holds: the loop terminates on every input, \<open>allocBuf_loop\<close> being a total function, and
by \<open>scan_selects_candidate\<close> a frame is selected whenever some frame is invalid or has
its reference bit clear and pin count 0.)
\<close>

theorem allocBuf_exceeded_with_unpinned_frame:
  "numBufs run_third_page = 2 \<and>
   valid (bufTable run_third_page ! 1) \<and> pinCnt (bufTable run_third_page ! 1) = 0 \<and>
   fst (allocBuf env_ok 0 run_third_page) = BUFFEREXCEEDED \<and>
   fst (allocPage env_ok 7 0 run_third_page) = BUFFEREXCEEDED"
proof -
  have "fst (allocBuf env_ok 0 run_third_page) = BUFFEREXCEEDED"
    by code_simp
  moreover have "fst (allocPage env_ok 7 0 run_third_page) = BUFFEREXCEEDED"
    by code_simp
  ultimately show ?thesis
    by (simp add: run_third_page_eq frame7_def numBufs_def)
qed

text \<open>
C5. When the scan has selected a valid frame, allocBuf first asks the index to remove the
frame's page. If that fails, allocBuf returns the status of the removal, the output
parameter keeps its value and nothing is written. If it succeeds and the frame is clean,
allocBuf returns OK with the frame number. If it succeeds and the frame is dirty, the
contents of the frame are written to the frame's file after the removal: if the write
fails allocBuf returns UNIXERR, the status of buf.C for a failure of the File, and the
output parameter keeps its value; otherwise it returns OK with the frame number. The log
shows the order: the removal, then the write.
\<close>

theorem allocBuf_eviction:
  assumes "fst (allocBuf_loop 0 s) < numBufs s"
    and "s1 = snd (allocBuf_loop 0 s)"
    and "tmpbuf = bufTable s1 ! clockHand s1"
    and "valid tmpbuf"
    and "rc = removeResult env (hashTable s1) (filePtr tmpbuf) (pageNo tmpbuf)"
    and "removed = [HtRemove (filePtr tmpbuf) (pageNo tmpbuf)]"
    and "written = [FileWrite (filePtr tmpbuf) (pageNo tmpbuf) (bufPool s1 ! clockHand s1)]"
    and "s2 = s1\<lparr>hashTable := removeEntry (filePtr tmpbuf, pageNo tmpbuf) (hashTable s1),
                   trace := trace s1 @ removed\<rparr>"
    and "wrc = writeResult env (trace s1 @ removed) (filePtr tmpbuf) (pageNo tmpbuf)
                 (bufPool s1 ! clockHand s1)"
  shows "(rc \<noteq> OK \<longrightarrow>
            allocBuf env frame s = (rc, frame, s1\<lparr>trace := trace s1 @ removed\<rparr>)) \<and>
         (rc = OK \<and> \<not> dirty tmpbuf \<longrightarrow>
            allocBuf env frame s = (OK, frameNo tmpbuf, s2)) \<and>
         (rc = OK \<and> dirty tmpbuf \<and> wrc \<noteq> OK \<longrightarrow>
            allocBuf env frame s = (UNIXERR, frame, s2\<lparr>trace := trace s1 @ removed @ written\<rparr>)) \<and>
         (rc = OK \<and> dirty tmpbuf \<and> wrc = OK \<longrightarrow>
            allocBuf env frame s
              = (OK, frameNo tmpbuf, s2\<lparr>trace := trace s1 @ removed @ written\<rparr>))"
  using assms
  by (simp add: allocBuf_def BufHashTbl_remove_def File_writePage_def Let_def case_prod_beta)

text \<open>
The four cases on a pool of one unpinned frame.
\<close>

theorem allocBuf_eviction_witness:
  "fst (allocBuf_loop 0 (pool_of [frame7 0 1 0 True False] 0))
     < numBufs (pool_of [frame7 0 1 0 True False] 0) \<and>
   clockHand (snd (allocBuf_loop 0 (pool_of [frame7 0 1 0 True False] 0))) = 0 \<and>
   valid (bufTable (snd (allocBuf_loop 0 (pool_of [frame7 0 1 0 True False] 0))) ! 0) \<and>
   dirty (bufTable (snd (allocBuf_loop 0 (pool_of [frame7 0 1 0 True False] 0))) ! 0) \<and>
   fst (allocBuf_loop 0 (pool_of [frame7 0 1 0 False False] 0))
     < numBufs (pool_of [frame7 0 1 0 False False] 0) \<and>
   valid (bufTable (snd (allocBuf_loop 0 (pool_of [frame7 0 1 0 False False] 0))) ! 0) \<and>
   \<not> dirty (bufTable (snd (allocBuf_loop 0 (pool_of [frame7 0 1 0 False False] 0))) ! 0) \<and>
   allocBuf env_remove_fails 5 (pool_of [frame7 0 1 0 True False] 0)
     = (HASHTBLERROR, 5, (pool_of [frame7 0 1 0 True False] 0)\<lparr>trace := [HtRemove 7 1]\<rparr>) \<and>
   allocBuf env_ok 5 (pool_of [frame7 0 1 0 False False] 0)
     = (OK, 0, (pool_of [frame7 0 1 0 False False] 0)\<lparr>hashTable := [], trace := [HtRemove 7 1]\<rparr>) \<and>
   allocBuf env_write_fails 5 (pool_of [frame7 0 1 0 True False] 0)
     = (UNIXERR, 5, (pool_of [frame7 0 1 0 True False] 0)
                      \<lparr>hashTable := [], trace := [HtRemove 7 1, FileWrite 7 1 100]\<rparr>) \<and>
   allocBuf env_ok 5 (pool_of [frame7 0 1 0 True False] 0)
     = (OK, 0, (pool_of [frame7 0 1 0 True False] 0)
                 \<lparr>hashTable := [], trace := [HtRemove 7 1, FileWrite 7 1 100]\<rparr>)"
proof -
  let ?d = "pool_of [frame7 0 1 0 True False] 0"
  let ?c = "pool_of [frame7 0 1 0 False False] 0"
  have ld: "allocBuf_loop 0 ?d = (0, ?d)"
    by code_simp
  have lc: "allocBuf_loop 0 ?c = (0, ?c)"
    by code_simp
  note inst = allocBuf_eviction[OF _ refl refl _ refl refl refl refl refl]
  show ?thesis
    using inst[of ?d env_remove_fails 5] inst[of ?c env_ok 5]
          inst[of ?d env_write_fails 5] inst[of ?d env_ok 5]
    by (simp add: ld lc pool_of_simps frame7_simps env_ok_def env_remove_fails_def
          env_write_fails_def)
qed

subsection \<open>allocPage\<close>

text \<open>
C7 (the code departs from the claim). With a File whose page allocation fails, allocPage on
a fresh pool returns OK.
\<close>

theorem allocPage_ignores_allocate_failure:
  "fst (File_allocatePage env_allocate_fails 7 0 (BufMgr_new 1)) = UNIXERR \<and>
   fst (allocPage env_allocate_fails 7 0 (BufMgr_new 1)) = OK"
  by code_simp

subsection \<open>Removal of an entry of the index\<close>

lemma removeEntry_subset: "set (removeEntry k h) \<subseteq> set h"
  by (induction h) auto

lemma removeEntry_set:
  "distinct (map fst h) \<Longrightarrow> set (removeEntry k h) = {e \<in> set h. fst e \<noteq> k}"
proof (induction h)
  case Nil
  show ?case by simp
next
  case (Cons a h)
  show ?case
  proof (cases "fst a = k")
    case True
    with Cons.prems have "k \<notin> fst ` set h" by simp
    then have "\<forall>e\<in>set h. fst e \<noteq> k" by (auto simp: image_iff)
    with True show ?thesis by auto
  next
    case False
    with Cons show ?thesis by auto
  qed
qed

lemma removeEntry_distinct:
  "distinct (map fst h) \<Longrightarrow> distinct (map fst (removeEntry k h))"
  "distinct (map snd h) \<Longrightarrow> distinct (map snd (removeEntry k h))"
proof (induction h)
  case Nil
  { case 1 show ?case by simp }
  { case 2 show ?case by simp }
next
  case (Cons a h)
  { case 1
    with Cons.IH(1) removeEntry_subset[of k h] show ?case
      by (cases "fst a = k") (auto simp: image_iff) }
  { case 2
    with Cons.IH(2) removeEntry_subset[of k h] show ?case
      by (cases "fst a = k") (auto simp: image_iff) }
qed

lemma removeEntry_absent: "map_of h k = None \<Longrightarrow> removeEntry k h = h"
  by (induction h) (auto split: if_splits)

lemma removeEntry_other: "k' \<noteq> k \<Longrightarrow> map_of (removeEntry k h) k' = map_of h k'"
  by (induction h) auto

lemma removeEntry_none: "map_of h k' = None \<Longrightarrow> map_of (removeEntry k h) k' = None"
  using removeEntry_subset[of k h] by (auto simp: map_of_eq_None_iff)

lemma removeEntry_gone: "distinct (map fst h) \<Longrightarrow> map_of (removeEntry k h) k = None"
  by (auto simp: map_of_eq_None_iff removeEntry_set)

subsection \<open>flushFile\<close>

declare flushFile_loop.simps [simp del]

lemma invalidate_fields:
  "bufTable (flushFile_invalidate env fl i s) ! j =
     (if j = i \<and> i < length (bufTable s)
      then (bufTable s ! i)\<lparr>filePtr := NULL, pageNo := - 1, valid := False\<rparr>
      else bufTable s ! j)"
  "length (bufTable (flushFile_invalidate env fl i s)) = length (bufTable s)"
  "numBufs (flushFile_invalidate env fl i s) = numBufs s"
  "bufPool (flushFile_invalidate env fl i s) = bufPool s"
  "clockHand (flushFile_invalidate env fl i s) = clockHand s"
  "trace (flushFile_invalidate env fl i s) = trace s @ [HtRemove fl (pageNo (bufTable s ! i))]"
  "hashTable (flushFile_invalidate env fl i s) =
     (if removeResult env (hashTable s) fl (pageNo (bufTable s ! i)) = OK
      then removeEntry (fl, pageNo (bufTable s ! i)) (hashTable s) else hashTable s)"
  by (simp_all add: flushFile_invalidate_def BufHashTbl_remove_def Let_def nth_updDesc numBufs_def)

lemma flush_exit:
  "\<not> i < numBufs s \<Longrightarrow> flushFile_loop env fl i s = (OK, s)"
  by (subst flushFile_loop.simps) simp

lemma flush_pinned:
  "i < numBufs s \<Longrightarrow> valid (bufTable s ! i) \<Longrightarrow> filePtr (bufTable s ! i) = fl \<Longrightarrow>
   pinCnt (bufTable s ! i) > 0 \<Longrightarrow> flushFile_loop env fl i s = (PAGEPINNED, s)"
  by (subst flushFile_loop.simps) simp

lemma flush_bad:
  "i < numBufs s \<Longrightarrow> \<not> valid (bufTable s ! i) \<Longrightarrow> filePtr (bufTable s ! i) = fl \<Longrightarrow>
   flushFile_loop env fl i s = (BADBUFFER, s)"
  by (subst flushFile_loop.simps) simp

lemma flush_skip:
  "i < numBufs s \<Longrightarrow> filePtr (bufTable s ! i) \<noteq> fl \<Longrightarrow>
   flushFile_loop env fl i s = flushFile_loop env fl (i + 1) s"
  by (subst flushFile_loop.simps) simp

lemma flush_clean:
  "i < numBufs s \<Longrightarrow> valid (bufTable s ! i) \<Longrightarrow> filePtr (bufTable s ! i) = fl \<Longrightarrow>
   \<not> pinCnt (bufTable s ! i) > 0 \<Longrightarrow> \<not> dirty (bufTable s ! i) \<Longrightarrow>
   flushFile_loop env fl i s = flushFile_loop env fl (i + 1) (flushFile_invalidate env fl i s)"
  by (subst flushFile_loop.simps) simp

lemma flush_dirty_fail:
  "i < numBufs s \<Longrightarrow> valid (bufTable s ! i) \<Longrightarrow> filePtr (bufTable s ! i) = fl \<Longrightarrow>
   \<not> pinCnt (bufTable s ! i) > 0 \<Longrightarrow> dirty (bufTable s ! i) \<Longrightarrow>
   writeResult env (trace s) fl (pageNo (bufTable s ! i)) (bufPool s ! i) \<noteq> OK \<Longrightarrow>
   flushFile_loop env fl i s =
     (writeResult env (trace s) fl (pageNo (bufTable s ! i)) (bufPool s ! i),
      s\<lparr>trace := trace s @ [FileWrite fl (pageNo (bufTable s ! i)) (bufPool s ! i)]\<rparr>)"
  by (subst flushFile_loop.simps) (simp add: File_writePage_def Let_def)

lemma flush_dirty_ok:
  "i < numBufs s \<Longrightarrow> valid (bufTable s ! i) \<Longrightarrow> filePtr (bufTable s ! i) = fl \<Longrightarrow>
   \<not> pinCnt (bufTable s ! i) > 0 \<Longrightarrow> dirty (bufTable s ! i) \<Longrightarrow>
   writeResult env (trace s) fl (pageNo (bufTable s ! i)) (bufPool s ! i) = OK \<Longrightarrow>
   flushFile_loop env fl i s =
     flushFile_loop env fl (i + 1)
       (flushFile_invalidate env fl i
          (updDesc i (\<lambda>d. d\<lparr>dirty := False\<rparr>)
             (s\<lparr>trace := trace s @ [FileWrite fl (pageNo (bufTable s ! i)) (bufPool s ! i)]\<rparr>)))"
  by (subst flushFile_loop.simps) (simp add: File_writePage_def Let_def)

text \<open>
An induction rule that follows the seven cases of the loop.
\<close>

lemma flush_induct [consumes 0, case_names exit pinned bad skip clean dirty_fail dirty_ok]:
  assumes "\<And>i s. \<not> i < numBufs s \<Longrightarrow> P i s"
    and "\<And>i s. i < numBufs s \<Longrightarrow> valid (bufTable s ! i) \<Longrightarrow> filePtr (bufTable s ! i) = fl \<Longrightarrow>
           pinCnt (bufTable s ! i) > 0 \<Longrightarrow> P i s"
    and "\<And>i s. i < numBufs s \<Longrightarrow> \<not> valid (bufTable s ! i) \<Longrightarrow> filePtr (bufTable s ! i) = fl \<Longrightarrow>
           P i s"
    and "\<And>i s. i < numBufs s \<Longrightarrow> filePtr (bufTable s ! i) \<noteq> fl \<Longrightarrow> P (i + 1) s \<Longrightarrow> P i s"
    and "\<And>i s. i < numBufs s \<Longrightarrow> valid (bufTable s ! i) \<Longrightarrow> filePtr (bufTable s ! i) = fl \<Longrightarrow>
           \<not> pinCnt (bufTable s ! i) > 0 \<Longrightarrow> \<not> dirty (bufTable s ! i) \<Longrightarrow>
           P (i + 1) (flushFile_invalidate env fl i s) \<Longrightarrow> P i s"
    and "\<And>i s. i < numBufs s \<Longrightarrow> valid (bufTable s ! i) \<Longrightarrow> filePtr (bufTable s ! i) = fl \<Longrightarrow>
           \<not> pinCnt (bufTable s ! i) > 0 \<Longrightarrow> dirty (bufTable s ! i) \<Longrightarrow>
           writeResult env (trace s) fl (pageNo (bufTable s ! i)) (bufPool s ! i) \<noteq> OK \<Longrightarrow> P i s"
    and "\<And>i s. i < numBufs s \<Longrightarrow> valid (bufTable s ! i) \<Longrightarrow> filePtr (bufTable s ! i) = fl \<Longrightarrow>
           \<not> pinCnt (bufTable s ! i) > 0 \<Longrightarrow> dirty (bufTable s ! i) \<Longrightarrow>
           writeResult env (trace s) fl (pageNo (bufTable s ! i)) (bufPool s ! i) = OK \<Longrightarrow>
           P (i + 1) (flushFile_invalidate env fl i
                        (updDesc i (\<lambda>d. d\<lparr>dirty := False\<rparr>)
                           (s\<lparr>trace := trace s @
                                [FileWrite fl (pageNo (bufTable s ! i)) (bufPool s ! i)]\<rparr>))) \<Longrightarrow>
           P i s"
  shows "P i s"
proof (induction "numBufs s - i" arbitrary: i s rule: less_induct)
  case less
  let ?d = "bufTable s ! i"
  let ?s1 = "s\<lparr>trace := trace s @ [FileWrite fl (pageNo ?d) (bufPool s ! i)]\<rparr>"
  show ?case
  proof (cases "i < numBufs s")
    case False
    then show ?thesis by (rule assms(1))
  next
    case lt: True
    then have ih: "P (i + 1) s'" if "numBufs s' = numBufs s" for s'
      using less[of s' "i + 1"] that by simp
    have ih1: "P (i + 1) s"
      by (rule ih) simp
    have ih2: "P (i + 1) (flushFile_invalidate env fl i s)"
      by (rule ih) (simp add: invalidate_fields)
    have ih3: "P (i + 1) (flushFile_invalidate env fl i (updDesc i (\<lambda>d. d\<lparr>dirty := False\<rparr>) ?s1))"
      by (rule ih) (simp add: invalidate_fields)
    show ?thesis
    proof (cases "filePtr ?d = fl")
      case False
      with lt ih1 show ?thesis by (intro assms(4)[of i s]) auto
    next
      case f: True
      show ?thesis
      proof (cases "valid ?d")
        case False
        with lt f show ?thesis by (intro assms(3)[of i s]) auto
      next
        case v: True
        show ?thesis
        proof (cases "pinCnt ?d > 0")
          case True
          with lt f v show ?thesis by (intro assms(2)[of i s]) auto
        next
          case np: False
          show ?thesis
          proof (cases "dirty ?d")
            case False
            with lt f v np ih2 show ?thesis by (intro assms(5)[of i s]) auto
          next
            case d: True
            show ?thesis
            proof (cases "writeResult env (trace s) fl (pageNo ?d) (bufPool s ! i) = OK")
              case False
              with lt f v np d show ?thesis by (intro assms(6)[of i s]) auto
            next
              case True
              with lt f v np d ih3 show ?thesis by (intro assms(7)[of i s]) auto
            qed
          qed
        qed
      qed
    qed
  qed
qed

lemma run_dirty_then_pinned_eq:
  "run_dirty_then_pinned =
     \<lparr>bufTable = [frame7 0 1 0 True True, frame7 1 2 1 False True],
      bufPool = [0, 0], hashTable = [((7, 2), 1), ((7, 1), 0)], clockHand = 1,
      trace = [FileAllocate 7, HtInsert 7 1 0, FileAllocate 7, HtInsert 7 2 1]\<rparr>"
  by code_simp

lemma flush_run_dirty_then_pinned:
  "flushFile env_ok 7 run_dirty_then_pinned =
     (PAGEPINNED,
      run_dirty_then_pinned
        \<lparr>bufTable := [\<lparr>filePtr = 0, pageNo = - 1, frameNo = 0, pinCnt = 0, dirty = False,
                        valid = False, refbit = True\<rparr>,
                      frame7 1 2 1 False True],
         hashTable := [((7, 2), 1)],
         trace := [FileAllocate 7, HtInsert 7 1 0, FileAllocate 7, HtInsert 7 2 1,
                   FileWrite 7 1 0, HtRemove 7 1]\<rparr>)"
  by code_simp

lemma flushLog_simps:
  "flushLog fl s 0 = []"
  "flushLog fl s (Suc m) = flushLog fl s m @ flushCalls fl s m"
  by (simp_all add: flushLog_def)

lemma flushIndex_simps:
  "flushIndex env fl s 0 = hashTable s"
  "flushIndex env fl s (Suc m) =
     (if filePtr (bufTable s ! m) = fl \<and>
         removeResult env (flushIndex env fl s m) fl (pageNo (bufTable s ! m)) = OK
      then removeEntry (fl, pageNo (bufTable s ! m)) (flushIndex env fl s m)
      else flushIndex env fl s m)"
  by (simp_all add: flushIndex_def)

lemma flushPrefix_fields:
  "j < length (bufTable s) \<Longrightarrow> bufTable (flushPrefix env fl s m) ! j =
     (if j < m \<and> filePtr (bufTable s ! j) = fl
      then flushedDesc (bufTable s ! j) else bufTable s ! j)"
  "length (bufTable (flushPrefix env fl s m)) = length (bufTable s)"
  "numBufs (flushPrefix env fl s m) = numBufs s"
  "bufPool (flushPrefix env fl s m) = bufPool s"
  "clockHand (flushPrefix env fl s m) = clockHand s"
  "trace (flushPrefix env fl s m) = trace s @ flushLog fl s m"
  "hashTable (flushPrefix env fl s m) = flushIndex env fl s m"
  by (simp_all add: flushPrefix_def numBufs_def)

lemma flushPrefix_0: "flushPrefix env fl s 0 = s"
  by (simp add: flushPrefix_def flushLog_simps flushIndex_simps map_nth)

lemma flushedDesc_clean:
  "\<not> dirty d \<Longrightarrow> d\<lparr>filePtr := NULL, pageNo := - 1, valid := False\<rparr> = flushedDesc d"
  by (cases d) (simp add: flushedDesc_def)

lemma flushedDesc_dirty:
  "d\<lparr>dirty := False, filePtr := NULL, pageNo := - 1, valid := False\<rparr> = flushedDesc d"
  by (cases d) (simp add: flushedDesc_def)

lemma flushPrefix_skip:
  assumes "filePtr (bufTable s ! m) \<noteq> fl"
  shows "flushPrefix env fl s (Suc m) = flushPrefix env fl s m"
proof (rule BufMgr.equality)
  show "bufTable (flushPrefix env fl s (Suc m)) = bufTable (flushPrefix env fl s m)"
    using assms by (intro nth_equalityI) (auto simp: flushPrefix_fields less_Suc_eq)
qed (simp_all add: flushPrefix_fields flushLog_simps flushIndex_simps flushCalls_def assms)

lemma flushPrefix_clean:
  assumes "m < numBufs s" "filePtr (bufTable s ! m) = fl" "\<not> dirty (bufTable s ! m)"
  shows "flushFile_invalidate env fl m (flushPrefix env fl s m) = flushPrefix env fl s (Suc m)"
proof (rule BufMgr.equality)
  from assms(1) have l: "m < length (bufTable s)" by (simp add: numBufs_def)
  show "bufTable (flushFile_invalidate env fl m (flushPrefix env fl s m))
          = bufTable (flushPrefix env fl s (Suc m))"
    using assms l
    by (intro nth_equalityI)
       (auto simp: invalidate_fields flushPrefix_fields less_Suc_eq flushedDesc_clean)
qed (use assms in \<open>simp_all add: invalidate_fields flushPrefix_fields flushLog_simps
       flushIndex_simps flushCalls_def numBufs_def\<close>)

lemma flushPrefix_dirty:
  assumes "m < numBufs s" "filePtr (bufTable s ! m) = fl" "dirty (bufTable s ! m)"
  shows "flushFile_invalidate env fl m
           (updDesc m (\<lambda>d. d\<lparr>dirty := False\<rparr>)
              ((flushPrefix env fl s m)
                 \<lparr>trace := trace (flushPrefix env fl s m) @
                    [FileWrite fl (pageNo (bufTable s ! m)) (bufPool s ! m)]\<rparr>))
         = flushPrefix env fl s (Suc m)"
proof (rule BufMgr.equality)
  from assms(1) have l: "m < length (bufTable s)" by (simp add: numBufs_def)
  show "bufTable (flushFile_invalidate env fl m
           (updDesc m (\<lambda>d. d\<lparr>dirty := False\<rparr>)
              ((flushPrefix env fl s m)
                 \<lparr>trace := trace (flushPrefix env fl s m) @
                    [FileWrite fl (pageNo (bufTable s ! m)) (bufPool s ! m)]\<rparr>)))
          = bufTable (flushPrefix env fl s (Suc m))"
    using assms l
    by (intro nth_equalityI)
       (auto simp: invalidate_fields flushPrefix_fields less_Suc_eq nth_updDesc flushedDesc_dirty)
qed (use assms in \<open>simp_all add: invalidate_fields flushPrefix_fields flushLog_simps
       flushIndex_simps flushCalls_def numBufs_def nth_updDesc\<close>)

lemma flush_prefix_step:
  assumes m: "m < numBufs s" and f: "filePtr (bufTable s ! m) = fl \<longrightarrow> flushable env fl s m"
  shows "flushFile_loop env fl m (flushPrefix env fl s m)
           = flushFile_loop env fl (Suc m) (flushPrefix env fl s (Suc m))"
proof -
  let ?S = "flushPrefix env fl s m"
  from m have l: "m < length (bufTable s)" by (simp add: numBufs_def)
  have d: "bufTable ?S ! m = bufTable s ! m" using l by (simp add: flushPrefix_fields)
  have n: "m < numBufs ?S" using m by (simp add: flushPrefix_fields)
  show ?thesis
  proof (cases "filePtr (bufTable s ! m) = fl")
    case False
    with n d show ?thesis by (simp add: flush_skip flushPrefix_skip)
  next
    case True
    with f have fa: "valid (bufTable s ! m)" "\<not> pinCnt (bufTable s ! m) > 0"
      "dirty (bufTable s ! m) \<Longrightarrow> writeBack env fl s m = OK"
      by (simp_all add: flushable_def)
    show ?thesis
    proof (cases "dirty (bufTable s ! m)")
      case False
      with n d True fa show ?thesis
        by (simp add: flush_clean flushPrefix_clean[OF m True False])
    next
      case dt: True
      with fa(3) have w: "writeResult env (trace ?S) fl (pageNo (bufTable ?S ! m)) (bufPool ?S ! m) = OK"
        by (simp add: writeBack_def flushPrefix_fields d)
      have "flushFile_loop env fl m ?S =
        flushFile_loop env fl (m + 1)
         (flushFile_invalidate env fl m
           (updDesc m (\<lambda>d. d\<lparr>dirty := False\<rparr>)
             (?S\<lparr>trace := trace ?S @ [FileWrite fl (pageNo (bufTable ?S ! m)) (bufPool ?S ! m)]\<rparr>)))"
        using n d True fa dt w by (intro flush_dirty_ok) simp_all
      then show ?thesis
        using flushPrefix_dirty[OF m True dt, of env] by (simp add: d flushPrefix_fields)
    qed
  qed
qed

text \<open>
As long as the frames of the file can be flushed, the loop has at frame \<open>m\<close> the state
\<open>flushPrefix env fl s m\<close>.
\<close>

lemma flush_prefix:
  "m \<le> numBufs s \<Longrightarrow> \<forall>j<m. filePtr (bufTable s ! j) = fl \<longrightarrow> flushable env fl s j \<Longrightarrow>
   flushFile env fl s = flushFile_loop env fl m (flushPrefix env fl s m)"
proof (induction m)
  case 0
  show ?case by (simp add: flushFile_def flushPrefix_0)
next
  case (Suc m)
  then have "flushFile env fl s = flushFile_loop env fl m (flushPrefix env fl s m)" by simp
  also have "\<dots> = flushFile_loop env fl (Suc m) (flushPrefix env fl s (Suc m))"
    using Suc.prems by (intro flush_prefix_step) simp_all
  finally show ?case .
qed

text \<open>
The loop stops at the first frame of the file that cannot be flushed.
\<close>

lemma flush_stop:
  assumes m: "m < numBufs s" and f: "filePtr (bufTable s ! m) = fl"
    and nf: "\<not> flushable env fl s m"
    and before: "\<forall>j<m. filePtr (bufTable s ! j) = fl \<longrightarrow> flushable env fl s j"
  shows "flushFile env fl s =
     (if \<not> valid (bufTable s ! m) then (BADBUFFER, flushPrefix env fl s m)
      else if pinCnt (bufTable s ! m) > 0 then (PAGEPINNED, flushPrefix env fl s m)
      else (writeBack env fl s m,
            (flushPrefix env fl s m)
              \<lparr>trace := trace s @ flushLog fl s m @
                 [FileWrite fl (pageNo (bufTable s ! m)) (bufPool s ! m)]\<rparr>))"
proof -
  let ?S = "flushPrefix env fl s m"
  from m have l: "m < length (bufTable s)" by (simp add: numBufs_def)
  have d: "bufTable ?S ! m = bufTable s ! m" using l by (simp add: flushPrefix_fields)
  have n: "m < numBufs ?S" using m by (simp add: flushPrefix_fields)
  have eq: "flushFile env fl s = flushFile_loop env fl m ?S"
    using m before by (intro flush_prefix) simp_all
  show ?thesis
  proof (cases "valid (bufTable s ! m)")
    case False
    with n d f show ?thesis by (simp add: eq flush_bad)
  next
    case v: True
    show ?thesis
    proof (cases "pinCnt (bufTable s ! m) > 0")
      case True
      with n d f v show ?thesis by (simp add: eq flush_pinned)
    next
      case np: False
      with v nf have dt: "dirty (bufTable s ! m)" and w: "writeBack env fl s m \<noteq> OK"
        by (auto simp: flushable_def)
      from w have w': "writeResult env (trace ?S) fl (pageNo (bufTable ?S ! m)) (bufPool ?S ! m) \<noteq> OK"
        by (simp add: writeBack_def flushPrefix_fields d)
      have "flushFile_loop env fl m ?S =
         (writeResult env (trace ?S) fl (pageNo (bufTable ?S ! m)) (bufPool ?S ! m),
          ?S\<lparr>trace := trace ?S @ [FileWrite fl (pageNo (bufTable ?S ! m)) (bufPool ?S ! m)]\<rparr>)"
        using n d f v np dt w' by (intro flush_dirty_fail) simp_all
      with v np show ?thesis
        by (simp add: eq writeBack_def flushPrefix_fields d)
    qed
  qed
qed

lemma flushIndex_subset: "set (flushIndex env fl s m) \<subseteq> set (hashTable s)"
proof (induction m)
  case 0
  show ?case by (simp add: flushIndex_simps)
next
  case (Suc m)
  with removeEntry_subset[of "(fl, pageNo (bufTable s ! m))" "flushIndex env fl s m"]
  show ?case by (auto simp: flushIndex_simps)
qed

lemma flushIndex_distinct:
  "distinct (map fst (hashTable s)) \<Longrightarrow> distinct (map fst (flushIndex env fl s m))"
  by (induction m) (simp_all add: flushIndex_simps removeEntry_distinct)

lemma flushIndex_other:
  "\<forall>j<m. filePtr (bufTable s ! j) = fl \<longrightarrow> key \<noteq> (fl, pageNo (bufTable s ! j)) \<Longrightarrow>
   map_of (flushIndex env fl s m) key = map_of (hashTable s) key"
  by (induction m) (simp_all add: flushIndex_simps removeEntry_other)

lemma flushIndex_gone:
  assumes r: "indexReliable env" and d: "distinct (map fst (hashTable s))"
  shows "j < m \<Longrightarrow> filePtr (bufTable s ! j) = fl \<Longrightarrow>
         map_of (flushIndex env fl s m) (fl, pageNo (bufTable s ! j)) = None"
proof (induction m)
  case 0
  then show ?case by simp
next
  case (Suc m)
  let ?h = "flushIndex env fl s m"
  show ?case
  proof (cases "j = m")
    case False
    with Suc have "map_of ?h (fl, pageNo (bufTable s ! j)) = None" by simp
    then show ?thesis by (simp add: flushIndex_simps removeEntry_none)
  next
    case True
    show ?thesis
    proof (cases "map_of ?h (fl, pageNo (bufTable s ! m)) = None")
      case n: True
      with True show ?thesis by (simp add: flushIndex_simps removeEntry_none)
    next
      case False
      with r have "removeResult env ?h fl (pageNo (bufTable s ! m)) = OK"
        unfolding indexReliable_def by blast
      with True Suc.prems flushIndex_distinct[OF d, of env fl m] show ?thesis
        by (simp add: flushIndex_simps removeEntry_gone)
    qed
  qed
qed

text \<open>
C8 (amended). Let frame \<open>k\<close> hold a page of file \<open>fl\<close> with a pin count above 0. Then
flushFile does not return OK. It stops at a frame \<open>m\<close>, at or before \<open>k\<close>: the first
frame that names \<open>fl\<close> and cannot be flushed, every frame of \<open>fl\<close> before it being valid,
unpinned and, if dirty, written with success. The status is BADBUFFER if frame \<open>m\<close> is
invalid, PAGEPINNED if it is pinned, and else that of the write of its page, which has
failed. If every frame of \<open>fl\<close> before \<open>k\<close> can be flushed, \<open>m\<close> is \<open>k\<close> and the status
PAGEPINNED.

The calls made are exactly, for each frame of \<open>fl\<close> before \<open>m\<close> in the order of the
frames, the write of its contents if it is dirty and the removal of its page from the
index (\<open>flushLog\<close>), then the failed write at \<open>m\<close> if that is what stops the loop. Each
frame of \<open>fl\<close> before \<open>m\<close> has the descriptor \<open>flushedDesc\<close> of its old one: invalid, not
dirty, no page. Frame \<open>m\<close>, the frames after it and the frames of other files keep their
descriptors; the pool, its size and the hand are as before.

The index is \<open>flushIndex env fl s m\<close>: the pages of the frames of \<open>fl\<close> before \<open>m\<close>
have been removed from it one after the other, as far as the index has accepted the
removals. It gains no entry, and the entry of every page other than those of the frames of
\<open>fl\<close> before \<open>m\<close> is as before. With an index that removes every page it holds, and
that holds no page twice, none of the pages of the frames of \<open>fl\<close> before \<open>m\<close> is in
the index afterwards.
\<close>

theorem flushFile_pinned_page:
  assumes "k < numBufs s" and "valid (bufTable s ! k)" and "filePtr (bufTable s ! k) = fl"
    and "pinCnt (bufTable s ! k) > 0"
  shows "\<exists>m\<le>k.
    filePtr (bufTable s ! m) = fl \<and> \<not> flushable env fl s m \<and>
    (\<forall>j<m. filePtr (bufTable s ! j) = fl \<longrightarrow> flushable env fl s j) \<and>
    fst (flushFile env fl s) =
      (if \<not> valid (bufTable s ! m) then BADBUFFER
       else if pinCnt (bufTable s ! m) > 0 then PAGEPINNED
       else writeBack env fl s m) \<and>
    fst (flushFile env fl s) \<noteq> OK \<and>
    trace (snd (flushFile env fl s)) =
      trace s @ flushLog fl s m @
      (if valid (bufTable s ! m) \<and> \<not> pinCnt (bufTable s ! m) > 0
       then [FileWrite fl (pageNo (bufTable s ! m)) (bufPool s ! m)] else []) \<and>
    (\<forall>j<m. filePtr (bufTable s ! j) = fl \<longrightarrow>
       bufTable (snd (flushFile env fl s)) ! j = flushedDesc (bufTable s ! j)) \<and>
    (\<forall>j<numBufs s. m \<le> j \<or> filePtr (bufTable s ! j) \<noteq> fl \<longrightarrow>
       bufTable (snd (flushFile env fl s)) ! j = bufTable s ! j) \<and>
    numBufs (snd (flushFile env fl s)) = numBufs s \<and>
    bufPool (snd (flushFile env fl s)) = bufPool s \<and>
    clockHand (snd (flushFile env fl s)) = clockHand s \<and>
    set (hashTable (snd (flushFile env fl s))) \<subseteq> set (hashTable s) \<and>
    (\<forall>key. (\<forall>j<m. filePtr (bufTable s ! j) = fl \<longrightarrow> key \<noteq> (fl, pageNo (bufTable s ! j))) \<longrightarrow>
       map_of (hashTable (snd (flushFile env fl s))) key = map_of (hashTable s) key) \<and>
    (indexReliable env \<and> distinct (map fst (hashTable s)) \<longrightarrow>
       (\<forall>j<m. filePtr (bufTable s ! j) = fl \<longrightarrow>
          map_of (hashTable (snd (flushFile env fl s))) (fl, pageNo (bufTable s ! j)) = None)) \<and>
    ((\<forall>j<k. filePtr (bufTable s ! j) = fl \<longrightarrow> flushable env fl s j) \<longrightarrow> m = k) \<and>
    hashTable (snd (flushFile env fl s)) = flushIndex env fl s m"
proof -
  let ?P = "\<lambda>j. filePtr (bufTable s ! j) = fl \<and> \<not> flushable env fl s j"
  define m where "m = (LEAST j. ?P j)"
  from assms have pk: "?P k" by (simp add: flushable_def)
  then have pm: "?P m" unfolding m_def by (rule LeastI)
  from pk have mk: "m \<le> k" unfolding m_def by (rule Least_le)
  have before: "\<forall>j<m. filePtr (bufTable s ! j) = fl \<longrightarrow> flushable env fl s j"
    using not_less_Least[of _ ?P] unfolding m_def by blast
  from mk assms(1) have mn: "m < numBufs s" by simp
  then have ml: "m < length (bufTable s)" by (simp add: numBufs_def)
  from pm have f: "filePtr (bufTable s ! m) = fl" and nf: "\<not> flushable env fl s m"
    by simp_all
  note st = flush_stop[OF mn f nf before]
  let ?t = "snd (flushFile env fl s)"
  have t_bt: "bufTable ?t = bufTable (flushPrefix env fl s m)"
    and t_pool: "bufPool ?t = bufPool s" and t_hand: "clockHand ?t = clockHand s"
    and t_h: "hashTable ?t = flushIndex env fl s m"
    by (simp_all add: st flushPrefix_fields)
  have 1: "fst (flushFile env fl s) =
      (if \<not> valid (bufTable s ! m) then BADBUFFER
       else if pinCnt (bufTable s ! m) > 0 then PAGEPINNED
       else writeBack env fl s m)"
    by (simp add: st)
  have 2: "fst (flushFile env fl s) \<noteq> OK"
    using nf by (auto simp: 1 flushable_def)
  have 3: "trace ?t = trace s @ flushLog fl s m @
      (if valid (bufTable s ! m) \<and> \<not> pinCnt (bufTable s ! m) > 0
       then [FileWrite fl (pageNo (bufTable s ! m)) (bufPool s ! m)] else [])"
    by (simp add: st flushPrefix_fields)
  have 4: "\<forall>j<m. filePtr (bufTable s ! j) = fl \<longrightarrow> bufTable ?t ! j = flushedDesc (bufTable s ! j)"
    using ml by (simp add: t_bt flushPrefix_fields)
  have 5: "\<forall>j<numBufs s. m \<le> j \<or> filePtr (bufTable s ! j) \<noteq> fl \<longrightarrow>
       bufTable ?t ! j = bufTable s ! j"
    by (auto simp: t_bt flushPrefix_fields numBufs_def)
  have 6: "numBufs ?t = numBufs s"
    by (simp add: numBufs_def t_bt flushPrefix_fields)
  have 7: "set (hashTable ?t) \<subseteq> set (hashTable s)"
    unfolding t_h by (rule flushIndex_subset)
  have 8: "\<forall>key. (\<forall>j<m. filePtr (bufTable s ! j) = fl \<longrightarrow> key \<noteq> (fl, pageNo (bufTable s ! j))) \<longrightarrow>
       map_of (hashTable ?t) key = map_of (hashTable s) key"
  proof (intro allI impI)
    fix key
    assume "\<forall>j<m. filePtr (bufTable s ! j) = fl \<longrightarrow> key \<noteq> (fl, pageNo (bufTable s ! j))"
    then show "map_of (hashTable ?t) key = map_of (hashTable s) key"
      unfolding t_h by (rule flushIndex_other)
  qed
  have 9: "indexReliable env \<and> distinct (map fst (hashTable s)) \<longrightarrow>
       (\<forall>j<m. filePtr (bufTable s ! j) = fl \<longrightarrow>
          map_of (hashTable ?t) (fl, pageNo (bufTable s ! j)) = None)"
  proof (intro impI allI)
    fix j
    assume "indexReliable env \<and> distinct (map fst (hashTable s))" "j < m"
      "filePtr (bufTable s ! j) = fl"
    then show "map_of (hashTable ?t) (fl, pageNo (bufTable s ! j)) = None"
      unfolding t_h by (intro flushIndex_gone) simp_all
  qed
  have 10: "(\<forall>j<k. filePtr (bufTable s ! j) = fl \<longrightarrow> flushable env fl s j) \<longrightarrow> m = k"
  proof
    assume a: "\<forall>j<k. filePtr (bufTable s ! j) = fl \<longrightarrow> flushable env fl s j"
    show "m = k"
    proof (rule ccontr)
      assume "m \<noteq> k"
      with mk have "m < k" by simp
      with a f nf show False by blast
    qed
  qed
  from mk f nf before 1 2 3 4 5 6 t_pool t_hand 7 8 9 10 t_h show ?thesis
    by (intro exI[of _ m] conjI) assumption+
qed

text \<open>
In \<open>run_dirty_then_pinned\<close> the pinned page is in frame 1, after the dirty page 1 of the
same file in frame 0. With a File that never fails, frame 0 can be flushed: flushFile
writes page 1, removes it from the index, marks frame 0 invalid and returns PAGEPINNED,
and the pinned page 2 keeps its frame and its entry. With a File whose writes fail,
flushFile stops at frame 0 with the status of the write: the write has been attempted,
and page 1 keeps its frame and its entry.
\<close>

theorem flushFile_pinned_page_witness:
  "1 < numBufs run_dirty_then_pinned \<and>
   valid (bufTable run_dirty_then_pinned ! 1) \<and>
   filePtr (bufTable run_dirty_then_pinned ! 1) = 7 \<and>
   pinCnt (bufTable run_dirty_then_pinned ! 1) > 0 \<and>
   filePtr (bufTable run_dirty_then_pinned ! 0) = 7 \<and>
   dirty (bufTable run_dirty_then_pinned ! 0) \<and>
   indexReliable env_ok \<and> distinct (map fst (hashTable run_dirty_then_pinned)) \<and>
   flushable env_ok 7 run_dirty_then_pinned 0 \<and>
   fst (flushFile env_ok 7 run_dirty_then_pinned) = PAGEPINNED \<and>
   trace (snd (flushFile env_ok 7 run_dirty_then_pinned))
     = trace run_dirty_then_pinned @ [FileWrite 7 1 0, HtRemove 7 1] \<and>
   bufTable (snd (flushFile env_ok 7 run_dirty_then_pinned)) ! 0
     = flushedDesc (bufTable run_dirty_then_pinned ! 0) \<and>
   bufTable (snd (flushFile env_ok 7 run_dirty_then_pinned)) ! 1
     = bufTable run_dirty_then_pinned ! 1 \<and>
   map_of (hashTable (snd (flushFile env_ok 7 run_dirty_then_pinned))) (7, 1) = None \<and>
   map_of (hashTable (snd (flushFile env_ok 7 run_dirty_then_pinned))) (7, 2) = Some 1 \<and>
   \<not> flushable env_write_fails 7 run_dirty_then_pinned 0 \<and>
   fst (flushFile env_write_fails 7 run_dirty_then_pinned) = UNIXERR \<and>
   trace (snd (flushFile env_write_fails 7 run_dirty_then_pinned))
     = trace run_dirty_then_pinned @ [FileWrite 7 1 0] \<and>
   bufTable (snd (flushFile env_write_fails 7 run_dirty_then_pinned)) ! 0
     = bufTable run_dirty_then_pinned ! 0 \<and>
   map_of (hashTable (snd (flushFile env_write_fails 7 run_dirty_then_pinned))) (7, 1) = Some 0"
proof -
  let ?R = "run_dirty_then_pinned"
  have a: "1 < numBufs ?R" "valid (bufTable ?R ! 1)" "filePtr (bufTable ?R ! 1) = 7"
    "pinCnt (bufTable ?R ! 1) > 0"
    by (simp_all add: run_dirty_then_pinned_eq numBufs_def frame7_simps)
  have b: "filePtr (bufTable ?R ! 0) = 7" "dirty (bufTable ?R ! 0)" "valid (bufTable ?R ! 0)"
    "\<not> pinCnt (bufTable ?R ! 0) > 0" "pageNo (bufTable ?R ! 0) = 1" "bufPool ?R ! 0 = 0"
    "pageNo (bufTable ?R ! 1) = 2"
    by (simp_all add: run_dirty_then_pinned_eq frame7_simps)
  have h: "map_of (hashTable ?R) (7, 1) = Some 0" "map_of (hashTable ?R) (7, 2) = Some 1"
    "distinct (map fst (hashTable ?R))"
    by (simp_all add: run_dirty_then_pinned_eq)
  have r: "indexReliable env_ok"
    by (simp add: indexReliable_def env_ok_def)
  have f0: "flushable env_ok 7 ?R 0"
    using b by (simp add: flushable_def writeBack_def env_ok_def)
  have n0: "\<not> flushable env_write_fails 7 ?R 0"
    using b by (simp add: flushable_def writeBack_def env_write_fails_def env_ok_def)
  have l1: "flushLog 7 ?R (Suc 0) = [FileWrite 7 1 0, HtRemove 7 1]"
    using b by (simp add: flushLog_def flushCalls_def)
  have l0: "flushLog 7 ?R 0 = []"
    by (simp add: flushLog_def)
  let ?t = "snd (flushFile env_ok 7 ?R)"
  have ok: "fst (flushFile env_ok 7 ?R) = PAGEPINNED \<and>
      trace ?t = trace ?R @ [FileWrite 7 1 0, HtRemove 7 1] \<and>
      bufTable ?t ! 0 = flushedDesc (bufTable ?R ! 0) \<and>
      bufTable ?t ! 1 = bufTable ?R ! 1 \<and>
      map_of (hashTable ?t) (7, 1) = None \<and>
      map_of (hashTable ?t) (7, 2) = Some 1"
    using flushFile_pinned_page[OF a, of env_ok]
  proof (elim exE conjE, goal_cases)
    case (1 m)
    from 1(1,3) f0 have m: "m = 1" by (cases "m = 0") auto
    from 1(9)[rule_format, of 1] a(1) have k: "bufTable ?t ! 1 = bufTable ?R ! 1"
      by (simp add: m)
    from 1(14)[rule_format, of "(7, 2)"] b h(2) have o: "map_of (hashTable ?t) (7, 2) = Some 1"
      by (simp add: m)
    from 1(15) r h(3) b have g: "map_of (hashTable ?t) (7, 1) = None"
      by (simp add: m)
    from 1(5,7,8) a b k o g show ?case
      by (simp add: m l1)
  qed
  let ?u = "snd (flushFile env_write_fails 7 ?R)"
  have fails: "fst (flushFile env_write_fails 7 ?R) = UNIXERR \<and>
      trace ?u = trace ?R @ [FileWrite 7 1 0] \<and>
      bufTable ?u ! 0 = bufTable ?R ! 0 \<and>
      map_of (hashTable ?u) (7, 1) = Some 0"
    using flushFile_pinned_page[OF a, of env_write_fails]
  proof (elim exE conjE, goal_cases)
    case (1 m)
    have m: "m = 0"
    proof (rule ccontr)
      assume "m \<noteq> 0"
      then have "0 < m" by simp
      with 1(4) b(1) n0 show False by blast
    qed
    from 1(9)[rule_format, of 0] a(1) have k: "bufTable ?u ! 0 = bufTable ?R ! 0"
      by (simp add: m)
    from 1(14)[rule_format, of "(7, 1)"] h(1) have o: "map_of (hashTable ?u) (7, 1) = Some 0"
      by (simp add: m)
    from 1(5,7) b k o show ?case
      by (simp add: m l0 writeBack_def env_write_fails_def env_ok_def)
  qed
  from a b h r f0 n0 ok fails show ?thesis by simp
qed

text \<open>
C8 as stated fails. In \<open>run_dirty_then_pinned\<close> frame 1 holds a pinned page of file 7 and
frame 0 a dirty, unpinned page of the same file. flushFile returns PAGEPINNED, but it has
written the page of frame 0 back, removed it from the index and invalidated the frame.
\<close>

theorem flushFile_pinned_page_counterexample:
  "valid (bufTable run_dirty_then_pinned ! 1) \<and>
   filePtr (bufTable run_dirty_then_pinned ! 1) = 7 \<and>
   pinCnt (bufTable run_dirty_then_pinned ! 1) > 0 \<and>
   valid (bufTable run_dirty_then_pinned ! 0) \<and>
   filePtr (bufTable run_dirty_then_pinned ! 0) = 7 \<and>
   dirty (bufTable run_dirty_then_pinned ! 0) \<and>
   map_of (hashTable run_dirty_then_pinned) (7, 1) = Some 0 \<and>
   fst (flushFile env_ok 7 run_dirty_then_pinned) = PAGEPINNED \<and>
   trace (snd (flushFile env_ok 7 run_dirty_then_pinned))
     = trace run_dirty_then_pinned @ [FileWrite 7 1 0, HtRemove 7 1] \<and>
   map_of (hashTable (snd (flushFile env_ok 7 run_dirty_then_pinned))) (7, 1) = None \<and>
   \<not> valid (bufTable (snd (flushFile env_ok 7 run_dirty_then_pinned)) ! 0)"
  unfolding flush_run_dirty_then_pinned
  by (simp add: run_dirty_then_pinned_eq frame7_simps)

subsection \<open>Pin counts\<close>

lemma pinsConsistent_descs:
  assumes "length (bufTable s') = length (bufTable s)"
    and "\<And>i. valid (bufTable s' ! i) = valid (bufTable s ! i) \<and>
              pinCnt (bufTable s' ! i) = pinCnt (bufTable s ! i)"
  shows "pinsConsistent s' = pinsConsistent s"
  using assms by (simp add: pinsConsistent_def numBufs_def)

lemma pinsConsistent_trace [simp]:
  "pinsConsistent (s\<lparr>trace := tr\<rparr>) = pinsConsistent s"
  by (simp add: pinsConsistent_def)

lemma pinsConsistent_new: "pinsConsistent (BufMgr_new n)"
  by (simp add: pinsConsistent_def BufMgr_new_def numBufs_def)

lemma pinsConsistent_loop:
  "pinsConsistent (snd (allocBuf_loop n s)) = pinsConsistent s"
  using loop_frame[of n s] by (intro pinsConsistent_descs) (simp_all add: loop_fields)

lemma pinsConsistent_allocBuf:
  "pinsConsistent (snd (snd (allocBuf env fr s))) = pinsConsistent s"
  using allocBuf_state[of env fr s] pinsConsistent_loop[of 0 s]
  by (simp add: pinsConsistent_def numBufs_def)

lemma pinsConsistent_unPinPage:
  assumes "pinsConsistent s"
  shows "pinsConsistent (snd (unPinPage fl pno isDirty s))"
proof -
  have "0 \<le> pinCnt (bufTable (snd (unPinPage fl pno isDirty s)) ! i) \<and>
        (\<not> valid (bufTable (snd (unPinPage fl pno isDirty s)) ! i) \<longrightarrow>
           pinCnt (bufTable (snd (unPinPage fl pno isDirty s)) ! i) = 0)"
    if "i < numBufs s" for i
    using pinsConsistentD[OF assms that]
    by (auto simp: unPinPage_def BufHashTbl_lookup_def Let_def nth_updDesc split: option.splits)
  moreover have "numBufs (snd (unPinPage fl pno isDirty s)) = numBufs s"
    by (simp add: unPinPage_def BufHashTbl_lookup_def Let_def split: option.splits)
  ultimately show ?thesis by (simp add: pinsConsistent_def)
qed

lemma pinsConsistent_allocPage:
  assumes "pinsConsistent s"
  shows "pinsConsistent (snd (snd (snd (allocPage env fl pno s))))"
proof -
  let ?a = "File_allocatePage env fl pno s"
  let ?s0 = "snd (snd ?a)"
  let ?r = "allocBuf env 0 ?s0"
  have "?s0 = s\<lparr>trace := trace s @ [FileAllocate fl]\<rparr>"
    by (simp add: File_allocatePage_def case_prod_beta)
  with assms have "pinsConsistent (snd (snd ?r))"
    by (simp add: pinsConsistent_allocBuf)
  then show ?thesis
    by (simp add: allocPage_def case_prod_beta Let_def BufHashTbl_insert_def pinsConsistent_def
          nth_updDesc BufDesc_Set_def)
qed

lemma pinsConsistent_disposePage:
  assumes "pinsConsistent s"
  shows "pinsConsistent (snd (disposePage env fl pno s))"
  using assms
  by (simp add: disposePage_def BufHashTbl_lookup_def BufHashTbl_remove_def File_disposePage_def
        Let_def case_prod_beta pinsConsistent_def nth_updDesc BufDesc_Clear_def
        split: option.splits)

lemma pinsConsistent_flush:
  "pinsConsistent s \<Longrightarrow> pinsConsistent (snd (flushFile_loop env fl i s))"
proof (induction i s rule: flush_induct[where env = env and fl = fl])
  case (exit i s)
  then show ?case by (simp add: flush_exit)
next
  case (pinned i s)
  then show ?case by (simp add: flush_pinned)
next
  case (bad i s)
  then show ?case by (simp add: flush_bad)
next
  case (skip i s)
  then show ?case by (simp add: flush_skip)
next
  case (clean i s)
  have "pinCnt (bufTable s ! i) = 0"
    using pinsConsistentD[OF clean.prems clean.hyps(1)] clean.hyps(4) by simp
  with clean.prems have "pinsConsistent (flushFile_invalidate env fl i s)"
    by (auto simp: pinsConsistent_def invalidate_fields)
  with clean.IH clean.hyps show ?case by (simp add: flush_clean)
next
  case (dirty_fail i s)
  then show ?case by (simp add: flush_dirty_fail)
next
  case (dirty_ok i s)
  have "pinCnt (bufTable s ! i) = 0"
    using pinsConsistentD[OF dirty_ok.prems dirty_ok.hyps(1)] dirty_ok.hyps(4) by simp
  with dirty_ok.prems have "pinsConsistent (flushFile_invalidate env fl i
      (updDesc i (\<lambda>d. d\<lparr>dirty := False\<rparr>)
         (s\<lparr>trace := trace s @ [FileWrite fl (pageNo (bufTable s ! i)) (bufPool s ! i)]\<rparr>)))"
    by (auto simp: pinsConsistent_def invalidate_fields nth_updDesc)
  with dirty_ok.IH dirty_ok.hyps show ?case by (simp add: flush_dirty_ok)
qed

text \<open>
Every operation keeps the pin counts consistent.
\<close>

lemma pinsConsistent_preserved:
  assumes "pinsConsistent s"
  shows "pinsConsistent (snd (snd (readPage env fl pno s)))"
    and "pinsConsistent (snd (unPinPage fl pno isDirty s))"
    and "pinsConsistent (snd (snd (snd (allocPage env fl pno s))))"
    and "pinsConsistent (snd (disposePage env fl pno s))"
    and "pinsConsistent (snd (flushFile env fl s))"
  using assms pinsConsistent_unPinPage pinsConsistent_allocPage pinsConsistent_disposePage
    pinsConsistent_flush
  by (simp_all add: readPage_eq flushFile_def)

subsection \<open>The index bijection\<close>

lemma indexMatchesD:
  assumes "indexMatches bt h"
  shows "distinct (map fst h)" and "distinct (map snd h)"
    and "\<And>k i. (k, i) \<in> set h \<Longrightarrow>
           i < length bt \<and> valid (bt ! i) \<and> k = (filePtr (bt ! i), pageNo (bt ! i))"
    and "\<And>i. i < length bt \<Longrightarrow> valid (bt ! i) \<Longrightarrow>
           ((filePtr (bt ! i), pageNo (bt ! i)), i) \<in> set h"
  using assms unfolding indexMatches_def by (simp, simp, fastforce, simp)

lemma indexHoleD:
  assumes "indexHole f bt h"
  shows "distinct (map fst h)" and "distinct (map snd h)"
    and "\<And>k i. (k, i) \<in> set h \<Longrightarrow>
           i \<noteq> f \<and> i < length bt \<and> valid (bt ! i) \<and> k = (filePtr (bt ! i), pageNo (bt ! i))"
    and "\<And>i. i < length bt \<Longrightarrow> i \<noteq> f \<Longrightarrow> valid (bt ! i) \<Longrightarrow>
           ((filePtr (bt ! i), pageNo (bt ! i)), i) \<in> set h"
  using assms unfolding indexHole_def by (simp, simp, fastforce, simp)

lemma indexMatchesI:
  assumes "distinct (map fst h)" and "distinct (map snd h)"
    and "\<And>k i. (k, i) \<in> set h \<Longrightarrow>
           i < length bt \<and> valid (bt ! i) \<and> k = (filePtr (bt ! i), pageNo (bt ! i))"
    and "\<And>i. i < length bt \<Longrightarrow> valid (bt ! i) \<Longrightarrow>
           ((filePtr (bt ! i), pageNo (bt ! i)), i) \<in> set h"
  shows "indexMatches bt h"
  unfolding indexMatches_def using assms by (simp add: Ball_def split_paired_all)

lemma indexHoleI:
  assumes "distinct (map fst h)" and "distinct (map snd h)"
    and "\<And>k i. (k, i) \<in> set h \<Longrightarrow>
           i \<noteq> f \<and> i < length bt \<and> valid (bt ! i) \<and> k = (filePtr (bt ! i), pageNo (bt ! i))"
    and "\<And>i. i < length bt \<Longrightarrow> i \<noteq> f \<Longrightarrow> valid (bt ! i) \<Longrightarrow>
           ((filePtr (bt ! i), pageNo (bt ! i)), i) \<in> set h"
  shows "indexHole f bt h"
  unfolding indexHole_def using assms by (simp add: Ball_def split_paired_all)

text \<open>
An invalid frame has no entry: the bijection has its hole there already.
\<close>

lemma hole_invalid:
  "indexMatches bt h \<Longrightarrow> \<not> valid (bt ! f) \<Longrightarrow> indexHole f bt h"
  unfolding indexMatches_def indexHole_def by blast

text \<open>
Removing the entry of the page of a valid frame leaves the hole at that frame.
\<close>

lemma hole_removed:
  assumes m: "indexMatches bt h" and f: "f < length bt" and v: "valid (bt ! f)"
  shows "indexHole f bt (removeEntry (filePtr (bt ! f), pageNo (bt ! f)) h)"
proof (rule indexHoleI)
  let ?k = "(filePtr (bt ! f), pageNo (bt ! f))"
  note d = indexMatchesD[OF m]
  have s: "set (removeEntry ?k h) = {e \<in> set h. fst e \<noteq> ?k}"
    using d(1) by (rule removeEntry_set)
  show "distinct (map fst (removeEntry ?k h))"
    using d(1) by (rule removeEntry_distinct)
  show "distinct (map snd (removeEntry ?k h))"
    using d(2) by (rule removeEntry_distinct)
  show "i \<noteq> f \<and> i < length bt \<and> valid (bt ! i) \<and> k = (filePtr (bt ! i), pageNo (bt ! i))"
    if "(k, i) \<in> set (removeEntry ?k h)" for k i
  proof -
    from that s have in_h: "(k, i) \<in> set h" and ne: "k \<noteq> ?k" by auto
    from d(3)[OF in_h] ne show ?thesis by auto
  qed
  show "((filePtr (bt ! i), pageNo (bt ! i)), i) \<in> set (removeEntry ?k h)"
    if "i < length bt" "i \<noteq> f" "valid (bt ! i)" for i
  proof -
    let ?ki = "(filePtr (bt ! i), pageNo (bt ! i))"
    have a: "(?ki, i) \<in> set h" using d(4)[OF that(1,3)] .
    have b: "(?k, f) \<in> set h" using d(4)[OF f v] .
    have "?ki \<noteq> ?k"
    proof
      assume "?ki = ?k"
      with a have "(?k, i) \<in> set h" by simp
      with b d(1) have "i = f" by (rule_tac eq_key_imp_eq_value) auto
      with that(2) show False by simp
    qed
    with a s show ?thesis by simp
  qed
qed

text \<open>
Inserting a page that the index does not hold, for the frame of the hole, and setting the
descriptor to that page restores the bijection.
\<close>

lemma hole_filled:
  assumes hl: "indexHole f bt h" and f: "f < length bt" and k: "map_of h k = None"
    and v: "valid d" and kd: "k = (filePtr d, pageNo d)"
  shows "indexMatches (bt[f := d]) ((k, f) # h)"
proof (rule indexMatchesI)
  note d = indexHoleD[OF hl]
  from k have nk: "k \<notin> fst ` set h"
    by (simp add: map_of_eq_None_iff)
  have nf: "f \<notin> snd ` set h"
    using d(3) by force
  show "distinct (map fst ((k, f) # h))" using d(1) nk by simp
  show "distinct (map snd ((k, f) # h))" using d(2) nf by simp
  show "i < length (bt[f := d]) \<and> valid (bt[f := d] ! i) \<and>
        k' = (filePtr (bt[f := d] ! i), pageNo (bt[f := d] ! i))"
    if "(k', i) \<in> set ((k, f) # h)" for k' i
  proof (cases "(k', i) = (k, f)")
    case True
    with f v kd show ?thesis by simp
  next
    case False
    with that have "(k', i) \<in> set h" by auto
    from d(3)[OF this] show ?thesis by simp
  qed
  show "((filePtr (bt[f := d] ! i), pageNo (bt[f := d] ! i)), i) \<in> set ((k, f) # h)"
    if "i < length (bt[f := d])" "valid (bt[f := d] ! i)" for i
  proof (cases "i = f")
    case True
    with f kd show ?thesis by simp
  next
    case False
    with that d(4)[of i] show ?thesis by simp
  qed
qed

text \<open>
Marking the frame of the hole invalid restores the bijection.
\<close>

lemma hole_closed:
  assumes hl: "indexHole f bt h" and f: "f < length bt" and v: "\<not> valid d"
  shows "indexMatches (bt[f := d]) h"
proof (rule indexMatchesI)
  note d = indexHoleD[OF hl]
  show "distinct (map fst h)" by (rule d(1))
  show "distinct (map snd h)" by (rule d(2))
  show "i < length (bt[f := d]) \<and> valid (bt[f := d] ! i) \<and>
        k = (filePtr (bt[f := d] ! i), pageNo (bt[f := d] ! i))"
    if "(k, i) \<in> set h" for k i
    using d(3)[OF that] by simp
  show "((filePtr (bt[f := d] ! i), pageNo (bt[f := d] ! i)), i) \<in> set h"
    if "i < length (bt[f := d])" "valid (bt[f := d] ! i)" for i
  proof (cases "i = f")
    case True
    with f v that show ?thesis by simp
  next
    case False
    with that d(4)[of i] show ?thesis by simp
  qed
qed

lemma indexMatches_cong:
  assumes "length bt' = length bt"
    and "\<And>i. valid (bt' ! i) = valid (bt ! i) \<and> filePtr (bt' ! i) = filePtr (bt ! i) \<and>
              pageNo (bt' ! i) = pageNo (bt ! i)"
  shows "indexMatches bt' h = indexMatches bt h" and "indexHole f bt' h = indexHole f bt h"
  using assms by (simp_all add: indexMatches_def indexHole_def)

lemma indexBijection_descs:
  assumes "hashTable s' = hashTable s" and "length (bufTable s') = length (bufTable s)"
    and "\<And>i. valid (bufTable s' ! i) = valid (bufTable s ! i) \<and>
              filePtr (bufTable s' ! i) = filePtr (bufTable s ! i) \<and>
              pageNo (bufTable s' ! i) = pageNo (bufTable s ! i)"
  shows "indexBijection s' = indexBijection s"
  unfolding indexBijection_def assms(1)
  using assms(2,3) by (rule indexMatches_cong)

lemma framesNumbered_descs:
  assumes "length (bufTable s') = length (bufTable s)"
    and "\<And>i. frameNo (bufTable s' ! i) = frameNo (bufTable s ! i)"
  shows "framesNumbered s' = framesNumbered s"
  using assms by (simp add: framesNumbered_def numBufs_def)

lemma trace_invariants [simp]:
  "indexBijection (s\<lparr>trace := tr\<rparr>) = indexBijection s"
  "framesNumbered (s\<lparr>trace := tr\<rparr>) = framesNumbered s"
  by (simp_all add: indexBijection_def framesNumbered_def)

lemma new_invariants:
  "indexBijection (BufMgr_new n)" "framesNumbered (BufMgr_new n)"
  by (simp_all add: indexBijection_def indexMatches_def framesNumbered_def BufMgr_new_def
        numBufs_def)

lemma loop_invariants:
  "indexBijection (snd (allocBuf_loop n s)) = indexBijection s"
  "framesNumbered (snd (allocBuf_loop n s)) = framesNumbered s"
proof -
  show "indexBijection (snd (allocBuf_loop n s)) = indexBijection s"
    using loop_frame[of n s] by (intro indexBijection_descs) (simp_all add: loop_fields)
  show "framesNumbered (snd (allocBuf_loop n s)) = framesNumbered s"
    using loop_frame[of n s] by (intro framesNumbered_descs) (simp_all add: loop_fields)
qed

lemma present_removed:
  assumes "indexReliable env" and "(k, i) \<in> set h"
  shows "removeResult env h (fst k) (snd k) = OK"
proof -
  from assms(2) have "fst (k, i) \<in> fst ` set h"
    by (rule imageI)
  then have "map_of h (fst k, snd k) \<noteq> None"
    by (simp add: map_of_eq_None_iff)
  with assms(1) show ?thesis
    unfolding indexReliable_def by blast
qed

lemma allocBuf_invariants:
  assumes ib: "indexBijection s" and fn: "framesNumbered s" and r: "indexReliable env"
  shows "framesNumbered (snd (snd (allocBuf env fr s)))"
    and "numBufs (snd (snd (allocBuf env fr s))) = numBufs s"
    and "fst (allocBuf env fr s) = BUFFEREXCEEDED \<Longrightarrow>
           indexBijection (snd (snd (allocBuf env fr s)))"
    and "fst (allocBuf env fr s) = OK \<Longrightarrow>
           fst (snd (allocBuf env fr s)) < numBufs s \<and>
           indexHole (fst (snd (allocBuf env fr s)))
             (bufTable (snd (snd (allocBuf env fr s)))) (hashTable (snd (snd (allocBuf env fr s))))"
proof -
  let ?sL = "snd (allocBuf_loop 0 s)"
  let ?n = "fst (allocBuf_loop 0 s)"
  let ?v = "clockHand ?sL"
  let ?t = "bufTable ?sL ! ?v"
  let ?r = "allocBuf env fr s"
  have ibL: "indexMatches (bufTable ?sL) (hashTable ?sL)"
    using ib loop_invariants(1)[of 0 s] by (simp add: indexBijection_def)
  have fnL: "framesNumbered ?sL"
    using fn loop_invariants(2)[of 0 s] by simp
  have bt: "bufTable (snd (snd ?r)) = bufTable ?sL"
    using allocBuf_state[of env fr s] by simp
  show "framesNumbered (snd (snd ?r))"
    using fnL bt by (simp add: framesNumbered_def numBufs_def)
  show "numBufs (snd (snd ?r)) = numBufs s"
    using bt loop_numBufs[of 0 s] by (simp add: numBufs_def)
  have exceeded: "numBufs s \<le> ?n \<Longrightarrow> ?r = (BUFFEREXCEEDED, fr, ?sL)"
    by (simp add: allocBuf_def case_prod_beta)
  have sel: "?v < numBufs s" "frameNo ?t = ?v" if "?n < numBufs s"
  proof -
    show v: "?v < numBufs s" using loop_selected[OF that] by simp
    with fnL show "frameNo ?t = ?v" by (simp add: framesNumbered_def)
  qed
  have rem: "removeResult env (hashTable ?sL) (filePtr ?t) (pageNo ?t) = OK"
    if "?n < numBufs s" "valid ?t"
  proof -
    from sel(1)[OF that(1)] have "?v < length (bufTable ?sL)"
      by (simp add: numBufs_def loop_frame)
    from indexMatchesD(4)[OF ibL this that(2)] present_removed[OF r]
    show ?thesis by fastforce
  qed
  show "indexBijection (snd (snd ?r))" if "fst ?r = BUFFEREXCEEDED"
  proof (cases "numBufs s \<le> ?n")
    case True
    with exceeded ibL show ?thesis by (simp add: indexBijection_def)
  next
    case False
    then have lt: "?n < numBufs s" by simp
    with that rem[OF lt] show ?thesis
      by (simp add: allocBuf_def case_prod_beta Let_def BufHashTbl_remove_def File_writePage_def
            split: if_splits)
  qed
  show "fst (snd ?r) < numBufs s \<and>
        indexHole (fst (snd ?r)) (bufTable (snd (snd ?r))) (hashTable (snd (snd ?r)))"
    if ok: "fst ?r = OK"
  proof -
    have lt: "?n < numBufs s"
      using ok exceeded by (cases "numBufs s \<le> ?n") auto
    note v = sel[OF lt]
    have vl: "?v < length (bufTable ?sL)"
      using v(1) by (simp add: numBufs_def loop_frame)
    show ?thesis
    proof (cases "valid ?t")
      case False
      then have "?r = (OK, ?v, ?sL)"
        using lt v(2) by (simp add: allocBuf_def case_prod_beta Let_def)
      with v(1) hole_invalid[OF ibL False] show ?thesis by simp
    next
      case True
      have "fst (snd ?r) = ?v \<and> bufTable (snd (snd ?r)) = bufTable ?sL \<and>
            hashTable (snd (snd ?r)) = removeEntry (filePtr ?t, pageNo ?t) (hashTable ?sL)"
        using ok lt v(2) True rem[OF lt True]
        by (simp add: allocBuf_def case_prod_beta Let_def BufHashTbl_remove_def
              File_writePage_def split: if_splits)
      with v(1) hole_removed[OF ibL vl True] show ?thesis by simp
    qed
  qed
qed

lemma allocBuf_status:
  assumes ib: "indexBijection s" and r: "indexReliable env"
  shows "fst (allocBuf env fr s) = OK \<or> fst (allocBuf env fr s) = BUFFEREXCEEDED \<or>
         fst (allocBuf env fr s) = UNIXERR"
proof -
  let ?sL = "snd (allocBuf_loop 0 s)"
  let ?n = "fst (allocBuf_loop 0 s)"
  let ?v = "clockHand ?sL"
  let ?t = "bufTable ?sL ! ?v"
  have ibL: "indexMatches (bufTable ?sL) (hashTable ?sL)"
    using ib loop_invariants(1)[of 0 s] by (simp add: indexBijection_def)
  have rem: "removeResult env (hashTable ?sL) (filePtr ?t) (pageNo ?t) = OK"
    if "?n < numBufs s" "valid ?t"
  proof -
    from loop_selected[OF that(1)] have "?v < length (bufTable ?sL)"
      by (simp add: numBufs_def loop_frame)
    from indexMatchesD(4)[OF ibL this that(2)] present_removed[OF r]
    show ?thesis by fastforce
  qed
  show ?thesis
  proof (cases "?n < numBufs s")
    case False
    then show ?thesis by (simp add: allocBuf_def case_prod_beta)
  next
    case True
    with rem[OF True] show ?thesis
      by (simp add: allocBuf_def case_prod_beta Let_def BufHashTbl_remove_def File_writePage_def)
  qed
qed

lemma unPinPage_invariants:
  "indexBijection (snd (unPinPage fl pno isDirty s)) = indexBijection s"
  "framesNumbered (snd (unPinPage fl pno isDirty s)) = framesNumbered s"
proof -
  have h: "hashTable (snd (unPinPage fl pno isDirty s)) = hashTable s"
    and l: "length (bufTable (snd (unPinPage fl pno isDirty s))) = length (bufTable s)"
    and d: "\<And>i. valid (bufTable (snd (unPinPage fl pno isDirty s)) ! i) = valid (bufTable s ! i) \<and>
        filePtr (bufTable (snd (unPinPage fl pno isDirty s)) ! i) = filePtr (bufTable s ! i) \<and>
        pageNo (bufTable (snd (unPinPage fl pno isDirty s)) ! i) = pageNo (bufTable s ! i) \<and>
        frameNo (bufTable (snd (unPinPage fl pno isDirty s)) ! i) = frameNo (bufTable s ! i)"
    by (simp_all add: unPinPage_def BufHashTbl_lookup_def Let_def nth_updDesc
          split: option.splits)
  show "indexBijection (snd (unPinPage fl pno isDirty s)) = indexBijection s"
    using h l d by (intro indexBijection_descs) simp_all
  show "framesNumbered (snd (unPinPage fl pno isDirty s)) = framesNumbered s"
    using l d by (intro framesNumbered_descs) simp_all
qed

lemma allocPage_invariants:
  assumes ib: "indexBijection s" and fn: "framesNumbered s" and r: "indexReliable env"
  shows "framesNumbered (snd (snd (snd (allocPage env fl pno s))))"
    and "fst (allocPage env fl pno s) = OK \<or> fst (allocPage env fl pno s) = BUFFEREXCEEDED \<Longrightarrow>
           indexBijection (snd (snd (snd (allocPage env fl pno s))))"
    and "fst (allocPage env fl pno s) \<in> {OK, BUFFEREXCEEDED, UNIXERR, HASHTBLERROR}"
proof -
  let ?a = "File_allocatePage env fl pno s"
  let ?s0 = "snd (snd ?a)"
  let ?p = "fst (snd ?a)"
  let ?r = "allocBuf env 0 ?s0"
  let ?f = "fst (snd ?r)"
  let ?s1 = "snd (snd ?r)"
  let ?i = "insertResult env (hashTable ?s1) fl ?p ?f"
  have s0: "?s0 = s\<lparr>trace := trace s @ [FileAllocate fl]\<rparr>"
    by (simp add: File_allocatePage_def case_prod_beta)
  have ib0: "indexBijection ?s0" and fn0: "framesNumbered ?s0"
    using ib fn by (simp_all add: s0)
  note ab = allocBuf_invariants[OF ib0 fn0 r, of 0]
  have eq: "allocPage env fl pno s =
      (if fst ?r \<noteq> OK then (fst ?r, ?p, None, ?s1)
       else if ?i \<noteq> OK
         then (HASHTBLERROR, ?p, None, ?s1\<lparr>trace := trace ?s1 @ [HtInsert fl ?p ?f]\<rparr>)
         else (OK, ?p, Some ?f,
               updDesc ?f (BufDesc_Set fl ?p)
                 (?s1\<lparr>trace := trace ?s1 @ [HtInsert fl ?p ?f],
                       hashTable := ((fl, ?p), ?f) # hashTable ?s1\<rparr>)))"
    by (simp add: allocPage_def case_prod_beta Let_def BufHashTbl_insert_def)
  show "framesNumbered (snd (snd (snd (allocPage env fl pno s))))"
    using ab(1) unfolding eq
    by (simp add: framesNumbered_def numBufs_def nth_updDesc BufDesc_Set_def)
  show "fst (allocPage env fl pno s) \<in> {OK, BUFFEREXCEEDED, UNIXERR, HASHTBLERROR}"
    using allocBuf_status[OF ib0 r, of 0] unfolding eq by auto
  show "indexBijection (snd (snd (snd (allocPage env fl pno s))))"
    if st: "fst (allocPage env fl pno s) = OK \<or> fst (allocPage env fl pno s) = BUFFEREXCEEDED"
  proof (cases "fst ?r = OK")
    case False
    with st have "fst ?r = BUFFEREXCEEDED" unfolding eq by simp
    from ab(3)[OF this] False show ?thesis unfolding eq by simp
  next
    case ok: True
    with st have ins: "?i = OK" unfolding eq by (auto split: if_splits)
    with r have none: "map_of (hashTable ?s1) (fl, ?p) = None"
      unfolding indexReliable_def by blast
    from ab(4)[OF ok] ab(2) have f: "?f < length (bufTable ?s1)"
      and hole: "indexHole ?f (bufTable ?s1) (hashTable ?s1)"
      by (simp_all add: numBufs_def)
    have "indexMatches ((bufTable ?s1)[?f := BufDesc_Set fl ?p (bufTable ?s1 ! ?f)])
            (((fl, ?p), ?f) # hashTable ?s1)"
      using hole f none by (rule hole_filled) (simp_all add: BufDesc_Set_def)
    then show ?thesis
      unfolding eq using ok ins by (simp add: indexBijection_def updDesc_def)
  qed
qed

lemma disposePage_invariants:
  assumes ib: "indexBijection s" and fn: "framesNumbered s" and r: "indexReliable env"
  shows "indexBijection (snd (disposePage env fl pno s))"
    and "framesNumbered (snd (disposePage env fl pno s))"
proof -
  let ?bt = "bufTable s"
  let ?h = "hashTable s"
  note m = ib[unfolded indexBijection_def]
  show "framesNumbered (snd (disposePage env fl pno s))"
    using fn
    by (simp add: disposePage_def BufHashTbl_lookup_def BufHashTbl_remove_def
          File_disposePage_def Let_def case_prod_beta framesNumbered_def numBufs_def
          nth_updDesc BufDesc_Clear_def split: option.splits)
  show "indexBijection (snd (disposePage env fl pno s))"
  proof (cases "map_of ?h (fl, pno)")
    case None
    then have "removeEntry (fl, pno) ?h = ?h" by (rule removeEntry_absent)
    with None m show ?thesis
      by (simp add: disposePage_def BufHashTbl_lookup_def BufHashTbl_remove_def
            File_disposePage_def Let_def indexBijection_def)
  next
    case (Some fr)
    then have ent: "((fl, pno), fr) \<in> set ?h" by (rule map_of_SomeD)
    from indexMatchesD(3)[OF m ent] have fr: "fr < length ?bt" and v: "valid (?bt ! fr)"
      and k: "(fl, pno) = (filePtr (?bt ! fr), pageNo (?bt ! fr))"
      by simp_all
    from present_removed[OF r ent] have rm: "removeResult env ?h fl pno = OK" by simp
    have "indexHole fr ?bt (removeEntry (fl, pno) ?h)"
      using hole_removed[OF m fr v] k by simp
    then have "indexMatches (?bt[fr := BufDesc_Clear (?bt ! fr)]) (removeEntry (fl, pno) ?h)"
      using fr by (rule hole_closed) (simp add: BufDesc_Clear_def)
    with Some rm show ?thesis
      by (simp add: disposePage_def BufHashTbl_lookup_def BufHashTbl_remove_def
            File_disposePage_def Let_def indexBijection_def updDesc_def)
  qed
qed

lemma invalidate_invariants:
  assumes ib: "indexBijection s" and fn: "framesNumbered s" and r: "indexReliable env"
    and i: "i < numBufs s" and v: "valid (bufTable s ! i)" and f: "filePtr (bufTable s ! i) = fl"
  shows "indexBijection (flushFile_invalidate env fl i s)"
    and "framesNumbered (flushFile_invalidate env fl i s)"
proof -
  let ?bt = "bufTable s"
  let ?h = "hashTable s"
  let ?d = "(?bt ! i)\<lparr>filePtr := NULL, pageNo := - 1, valid := False\<rparr>"
  note m = ib[unfolded indexBijection_def]
  from i have il: "i < length ?bt" by (simp add: numBufs_def)
  have ent: "((fl, pageNo (?bt ! i)), i) \<in> set ?h"
    using indexMatchesD(4)[OF m il v] f by simp
  from present_removed[OF r ent] have rm: "removeResult env ?h fl (pageNo (?bt ! i)) = OK"
    by simp
  have "indexHole i ?bt (removeEntry (fl, pageNo (?bt ! i)) ?h)"
    using hole_removed[OF m il v] f by simp
  then have "indexMatches (?bt[i := ?d]) (removeEntry (fl, pageNo (?bt ! i)) ?h)"
    using il by (rule hole_closed) simp
  with rm show "indexBijection (flushFile_invalidate env fl i s)"
    by (simp add: flushFile_invalidate_def BufHashTbl_remove_def Let_def indexBijection_def
          updDesc_def)
  show "framesNumbered (flushFile_invalidate env fl i s)"
    using fn by (simp add: framesNumbered_def invalidate_fields)
qed

lemma flush_invariants:
  assumes r: "indexReliable env"
  shows "indexBijection s \<and> framesNumbered s \<Longrightarrow>
         indexBijection (snd (flushFile_loop env fl i s)) \<and>
         framesNumbered (snd (flushFile_loop env fl i s))"
proof (induction i s rule: flush_induct[where env = env and fl = fl])
  case (exit i s)
  then show ?case by (simp add: flush_exit)
next
  case (pinned i s)
  then show ?case by (simp add: flush_pinned)
next
  case (bad i s)
  then show ?case by (simp add: flush_bad)
next
  case (skip i s)
  then show ?case by (simp add: flush_skip)
next
  case (clean i s)
  from clean.prems clean.hyps invalidate_invariants[OF _ _ r, of s i fl]
  have "indexBijection (flushFile_invalidate env fl i s) \<and>
        framesNumbered (flushFile_invalidate env fl i s)"
    by simp
  with clean.IH clean.hyps show ?case by (simp add: flush_clean)
next
  case (dirty_fail i s)
  then show ?case by (simp add: flush_dirty_fail)
next
  case (dirty_ok i s)
  let ?s1 = "updDesc i (\<lambda>d. d\<lparr>dirty := False\<rparr>)
               (s\<lparr>trace := trace s @ [FileWrite fl (pageNo (bufTable s ! i)) (bufPool s ! i)]\<rparr>)"
  have "indexBijection ?s1 = indexBijection s"
    by (intro indexBijection_descs) (simp_all add: nth_updDesc)
  moreover have "framesNumbered ?s1 = framesNumbered s"
    by (intro framesNumbered_descs) (simp_all add: nth_updDesc)
  moreover have "i < numBufs ?s1" "valid (bufTable ?s1 ! i)" "filePtr (bufTable ?s1 ! i) = fl"
    using dirty_ok.hyps by (simp_all add: nth_updDesc numBufs_def)
  ultimately have "indexBijection (flushFile_invalidate env fl i ?s1) \<and>
        framesNumbered (flushFile_invalidate env fl i ?s1)"
    using dirty_ok.prems invalidate_invariants[OF _ _ r, of ?s1 i fl] by simp
  with dirty_ok.IH dirty_ok.hyps show ?case by (simp add: flush_dirty_ok)
qed

lemma perform_invariants:
  assumes r: "indexReliable env" and ib: "indexBijection s" and fn: "framesNumbered s"
    and c: "\<not> allocFailed c (fst (perform env c s))"
  shows "indexBijection (snd (perform env c s)) \<and> framesNumbered (snd (perform env c s))"
proof (cases c)
  case (UnPinPage fl pno isDirty)
  with ib fn show ?thesis by (simp add: unPinPage_invariants)
next
  case (AllocPage fl pno)
  with c allocPage_invariants(1,2)[OF ib fn r, of fl pno] show ?thesis
    by simp
next
  case (DisposePage fl pno)
  with disposePage_invariants[OF ib fn r, of fl pno] show ?thesis by simp
next
  case (FlushFile fl)
  with flush_invariants[OF r, of s fl 0] ib fn show ?thesis by (simp add: flushFile_def)
qed

lemma run_invariants:
  assumes r: "indexReliable env"
  shows "indexBijection s \<Longrightarrow> framesNumbered s \<Longrightarrow> allocsComplete env cs s \<Longrightarrow>
         indexBijection (run env cs s) \<and> framesNumbered (run env cs s)"
proof (induction cs arbitrary: s)
  case Nil
  then show ?case by simp
next
  case (Cons c cs)
  from Cons.prems have "indexBijection (snd (perform env c s)) \<and>
      framesNumbered (snd (perform env c s))"
    by (intro perform_invariants[OF r]) simp_all
  with Cons.IH[of "snd (perform env c s)"] Cons.prems(3) show ?case by simp
qed

text \<open>
C9 (amended). Let the Page Index be reliable: it refuses to insert a page it holds and
removes every page it holds. Take any sequence of calls of unPinPage, allocPage,
disposePage and flushFile, made from the freshly constructed pool, in which every call of
allocPage returns OK or BUFFEREXCEEDED; whatever the other calls return, the state after
the sequence has the bijection between valid frames and index entries. The same holds of
such a sequence made from any state that has the bijection and whose frames carry their
own numbers; and the frames still carry their numbers afterwards.

Nothing is stated of a sequence in which a call of allocPage returns another status, nor of
readPage, whose departure from its description is the matter of C1.
\<close>

theorem index_bijection_preserved:
  assumes "indexReliable env"
    and "allocsComplete env cs (BufMgr_new n)"
    and "framesNumbered s" and "indexBijection s" and "allocsComplete env cs' s"
  shows "indexBijection (run env cs (BufMgr_new n)) \<and>
    indexBijection (run env cs' s) \<and> framesNumbered (run env cs' s)"
  using run_invariants[OF assms(1) new_invariants assms(2)]
    run_invariants[OF assms(1) assms(4) assms(3) assms(5)]
  by simp

text \<open>
From the fresh pool of two frames, with the collaborator that never fails, the calls of
\<open>calls_with_errors\<close>: the third allocPage returns BUFFEREXCEEDED, flushFile PAGEPINNED and
the second unPinPage HASHNOTFOUND, and the bijection holds at the end. From
\<open>run_dirty_then_pinned\<close>, a flushFile that returns PAGEPINNED and an allocPage.
\<close>

theorem index_bijection_preserved_witness:
  "indexReliable env_ok \<and>
   allocsComplete env_ok calls_with_errors (BufMgr_new 2) \<and>
   statuses env_ok calls_with_errors (BufMgr_new 2)
     = [OK, OK, BUFFEREXCEEDED, OK, PAGEPINNED, HASHNOTFOUND, OK, OK] \<and>
   indexBijection (run env_ok calls_with_errors (BufMgr_new 2)) \<and>
   framesNumbered run_dirty_then_pinned \<and>
   indexBijection run_dirty_then_pinned \<and>
   allocsComplete env_ok [FlushFile 7, AllocPage 7 0] run_dirty_then_pinned \<and>
   statuses env_ok [FlushFile 7, AllocPage 7 0] run_dirty_then_pinned = [PAGEPINNED, OK] \<and>
   indexBijection (run env_ok [FlushFile 7, AllocPage 7 0] run_dirty_then_pinned)"
proof -
  have r: "indexReliable env_ok"
    by (simp add: indexReliable_def env_ok_def)
  have c: "allocsComplete env_ok calls_with_errors (BufMgr_new 2)"
    by code_simp
  have s: "statuses env_ok calls_with_errors (BufMgr_new 2)
     = [OK, OK, BUFFEREXCEEDED, OK, PAGEPINNED, HASHNOTFOUND, OK, OK]"
    by code_simp
  have f: "framesNumbered run_dirty_then_pinned"
    by (simp add: framesNumbered_def run_dirty_then_pinned_eq numBufs_def frame7_simps
          nth_Cons split: nat.splits)
  have b: "indexBijection run_dirty_then_pinned"
    by (simp add: indexBijection_def indexMatches_def run_dirty_then_pinned_eq frame7_simps
          nth_Cons split: nat.splits)
  have c': "allocsComplete env_ok [FlushFile 7, AllocPage 7 0] run_dirty_then_pinned"
    by code_simp
  have s': "statuses env_ok [FlushFile 7, AllocPage 7 0] run_dirty_then_pinned = [PAGEPINNED, OK]"
    by code_simp
  from index_bijection_preserved[OF r c f b c'] r c s f b c' s' show ?thesis by simp
qed

text \<open>
C9 as stated fails, on an error path and after it. From the fresh pool of two frames, with
a reliable index and a File whose writes fail: two pages are allocated and the first is
unpinned as dirty; the bijection holds. The third allocPage selects frame 0, removes page 1
from the index, fails to write it back and returns UNIXERR: frame 0 is still valid and has
no entry. The unPinPage and the allocPage that follow both return OK, and the bijection
is still broken after each of them: at the end frame 0 is valid and holds page 1, which has
no entry.
\<close>

theorem index_bijection_counterexample:
  "indexReliable env_write_fails \<and>
   statuses env_write_fails calls_failed_eviction (BufMgr_new 2)
     = [OK, OK, OK, UNIXERR, OK, OK] \<and>
   indexBijection (run env_write_fails (take 3 calls_failed_eviction) (BufMgr_new 2)) \<and>
   \<not> indexBijection (run env_write_fails (take 4 calls_failed_eviction) (BufMgr_new 2)) \<and>
   \<not> indexBijection (run env_write_fails (take 5 calls_failed_eviction) (BufMgr_new 2)) \<and>
   \<not> indexBijection (run env_write_fails calls_failed_eviction (BufMgr_new 2)) \<and>
   valid (bufTable (run env_write_fails calls_failed_eviction (BufMgr_new 2)) ! 0) \<and>
   filePtr (bufTable (run env_write_fails calls_failed_eviction (BufMgr_new 2)) ! 0) = 7 \<and>
   pageNo (bufTable (run env_write_fails calls_failed_eviction (BufMgr_new 2)) ! 0) = 1 \<and>
   map_of (hashTable (run env_write_fails calls_failed_eviction (BufMgr_new 2))) (7, 1) = None"
proof -
  have r: "indexReliable env_write_fails"
    by (simp add: indexReliable_def env_write_fails_def env_ok_def)
  have s: "statuses env_write_fails calls_failed_eviction (BufMgr_new 2)
     = [OK, OK, OK, UNIXERR, OK, OK]"
    by code_simp
  have 3: "indexBijection (run env_write_fails (take 3 calls_failed_eviction) (BufMgr_new 2))"
    by code_simp
  have 4: "\<not> indexBijection (run env_write_fails (take 4 calls_failed_eviction) (BufMgr_new 2))"
    by code_simp
  have 5: "\<not> indexBijection (run env_write_fails (take 5 calls_failed_eviction) (BufMgr_new 2))"
    by code_simp
  have 6: "run env_write_fails calls_failed_eviction (BufMgr_new 2) =
     \<lparr>bufTable = [frame7 0 1 0 True False, frame7 1 4 1 False True],
      bufPool = [0, 0], hashTable = [((7, 4), 1)], clockHand = 1,
      trace = [FileAllocate 7, HtInsert 7 1 0, FileAllocate 7, HtInsert 7 2 1,
               FileAllocate 7, HtRemove 7 1, FileWrite 7 1 0, FileAllocate 7,
               HtRemove 7 2, HtInsert 7 4 1]\<rparr>"
    by code_simp
  have 7: "\<not> indexBijection (run env_write_fails calls_failed_eviction (BufMgr_new 2))"
    unfolding 6 by (simp add: indexBijection_def indexMatches_def frame7_simps)
  from r s 3 4 5 7 show ?thesis
    by (simp add: 6 frame7_simps)
qed

end
